theory Spec2Isabelle
  imports Main
begin

section \<open>Strings of Unicode code points\<close>

text \<open>
  The program is a Python script (scripts/translate-docs.py). A Python \<open>str\<close> is a
  sequence of Unicode code points, and \<open>len\<close>, indexing, the regular expressions and
  \<open>str.strip\<close> all work on code points. A string is therefore a list of natural
  numbers, one per code point. \<open>ustr\<close> turns an ASCII literal into such a list.
\<close>

type_synonym uchar = nat
type_synonym ustring = "nat list"

definition ustr :: "string \<Rightarrow> ustring" where
  "ustr s = map of_char s"

abbreviation (input) NL :: uchar where "NL \<equiv> 10"
abbreviation (input) SPACE :: uchar where "SPACE \<equiv> 32"
abbreviation (input) TAB :: uchar where "TAB \<equiv> 9"
abbreviation (input) HASH :: uchar where "HASH \<equiv> 35"
abbreviation (input) LPAREN :: uchar where "LPAREN \<equiv> 40"
abbreviation (input) RPAREN :: uchar where "RPAREN \<equiv> 41"
abbreviation (input) STAR :: uchar where "STAR \<equiv> 42"
abbreviation (input) PLUS :: uchar where "PLUS \<equiv> 43"
abbreviation (input) COMMA :: uchar where "COMMA \<equiv> 44"
abbreviation (input) HYPHEN :: uchar where "HYPHEN \<equiv> 45"
abbreviation (input) DOT :: uchar where "DOT \<equiv> 46"
abbreviation (input) COLON :: uchar where "COLON \<equiv> 58"
abbreviation (input) GT :: uchar where "GT \<equiv> 62"
abbreviation (input) LBRACKET :: uchar where "LBRACKET \<equiv> 91"
abbreviation (input) RBRACKET :: uchar where "RBRACKET \<equiv> 93"
abbreviation (input) BACKTICK :: uchar where "BACKTICK \<equiv> 96"
abbreviation (input) PIPE :: uchar where "PIPE \<equiv> 124"

text \<open>\<open>PH_PREFIX\<close> is U+27E8 (\<open>\<langle>\<close>) and \<open>PH_SUFFIX\<close> is U+27E9 (\<open>\<rangle>\<close>).\<close>

abbreviation (input) PH_PREFIX :: uchar where "PH_PREFIX \<equiv> 10216"
abbreviation (input) PH_SUFFIX :: uchar where "PH_SUFFIX \<equiv> 10217"

text \<open>
  Whitespace as \<open>str.isspace\<close>, \<open>str.strip()\<close> and the class \<open>\s\<close> of a \<open>str\<close>
  pattern see it: the code points of the interpreter's Unicode table.
\<close>

definition is_space :: "uchar \<Rightarrow> bool" where
  "is_space c \<longleftrightarrow>
     (9 \<le> c \<and> c \<le> 13) \<or> (28 \<le> c \<and> c \<le> 32) \<or> c = 133 \<or> c = 160 \<or> c = 5760 \<or>
     (8192 \<le> c \<and> c \<le> 8202) \<or> c = 8232 \<or> c = 8233 \<or> c = 8239 \<or> c = 8287 \<or> c = 12288"

text \<open>
  The class \<open>\d\<close> of a \<open>str\<close> pattern is the Unicode decimal digits (category Nd):
  blocks of ten consecutive code points, listed here by the code point of their zero
  (Unicode 14, the table of the interpreter).
\<close>

definition digit_zeros :: "nat list" where
  "digit_zeros =
    [48, 1632, 1776, 1984, 2406, 2534, 2662, 2790, 2918, 3046, 3174, 3302, 3430, 3558,
     3664, 3792, 3872, 4160, 4240, 6112, 6160, 6470, 6608, 6784, 6800, 6992, 7088, 7232,
     7248, 42528, 43216, 43264, 43472, 43504, 43600, 44016, 65296, 66720, 68912, 69734,
     69872, 69942, 70096, 70384, 70736, 70864, 71248, 71360, 71472, 71904, 72016, 72784,
     73040, 73120, 92768, 92864, 93008, 120782, 120792, 120802, 120812, 120822, 123200,
     123632, 125264, 130032]"

definition is_digit :: "uchar \<Rightarrow> bool" where
  "is_digit c = list_ex (\<lambda>z. z \<le> c \<and> c \<le> z + 9) digit_zeros"

text \<open>\<open>str.strip()\<close>, \<open>str.startswith\<close>, \<open>str.endswith\<close>.\<close>

definition lstrip :: "ustring \<Rightarrow> ustring" where
  "lstrip s = dropWhile is_space s"

definition rstrip :: "ustring \<Rightarrow> ustring" where
  "rstrip s = rev (dropWhile is_space (rev s))"

definition strip :: "ustring \<Rightarrow> ustring" where
  "strip s = rstrip (lstrip s)"

definition startswith :: "ustring \<Rightarrow> ustring \<Rightarrow> bool" where
  "startswith s p \<longleftrightarrow> take (length p) s = p"

definition endswith :: "ustring \<Rightarrow> ustring \<Rightarrow> bool" where
  "endswith s p \<longleftrightarrow> length p \<le> length s \<and> drop (length s - length p) s = p"

text \<open>
  \<open>s.split(d)\<close> for a one-character separator: always at least one piece. The last
  case of the \<open>case\<close> cannot arise, since the result is never empty.
\<close>

fun split_on :: "uchar \<Rightarrow> ustring \<Rightarrow> ustring list" where
  "split_on d [] = [[]]"
| "split_on d (c # cs) =
     (if c = d then [] # split_on d cs
      else (case split_on d cs of p # ps \<Rightarrow> (c # p) # ps | [] \<Rightarrow> [[c]]))"

text \<open>\<open>sep.join(xs)\<close>.\<close>

fun join :: "ustring \<Rightarrow> ustring list \<Rightarrow> ustring" where
  "join sep [] = []"
| "join sep [x] = x"
| "join sep (x # y # ys) = x @ sep @ join sep (y # ys)"

text \<open>
  \<open>s.replace(old, new)\<close>: every occurrence, left to right, without overlap. With an
  empty \<open>old\<close> Python puts \<open>new\<close> before every character and at the end.
\<close>

function py_replace :: "ustring \<Rightarrow> ustring \<Rightarrow> ustring \<Rightarrow> ustring" where
  "py_replace old new s =
     (if old = [] then new @ concat (map (\<lambda>c. c # new) s)
      else if s = [] then []
      else if startswith s old then new @ py_replace old new (drop (length old) s)
      else hd s # py_replace old new (tl s))"
  by pat_completeness auto
termination
  by (relation "measure (\<lambda>(old, new, s). length s)") auto

text \<open>\<open>s.count(sub)\<close> for a non-empty \<open>sub\<close>: occurrences without overlap.\<close>

function py_count :: "ustring \<Rightarrow> ustring \<Rightarrow> nat" where
  "py_count sub s =
     (if sub = [] then Suc (length s)
      else if s = [] then 0
      else if startswith s sub then Suc (py_count sub (drop (length sub) s))
      else py_count sub (tl s))"
  by pat_completeness auto
termination
  by (relation "measure (\<lambda>(sub, s). length s)") auto

text \<open>\<open>str(idx)\<close> for a non-negative integer: its decimal digits.\<close>

function py_str :: "nat \<Rightarrow> ustring" where
  "py_str n = (if n < 10 then [48 + n] else py_str (n div 10) @ [48 + n mod 10])"
  by pat_completeness auto
termination
  by (relation "measure id") auto

declare py_replace.simps [simp del] py_count.simps [simp del] py_str.simps [simp del]

section \<open>Regular expressions\<close>

text \<open>
  Each pattern of the script is embedded as a function that tries the pattern at the
  start of a string and returns the groups the caller uses and the text after the
  match. Every pattern here is deterministic under Python's backtracking: a greedy
  run \<open>[^x]+\<close> or \<open>\s*\<close> is followed by a character outside the run's class, so the
  only run that can succeed is the longest one (\<open>takeWhile\<close>).

  \<open>re_sub\<close> is \<open>pattern.sub(repl, s)\<close> with a replacement callback that may change
  state (the placeholder counter and map): matches are found left to right, a match
  is replaced and the scan resumes after it, any other character is copied. None of
  the patterns matches the empty string; a matcher that consumed nothing is treated
  as no match, which keeps the scan total.
\<close>

type_synonym 'g matcher = "ustring \<Rightarrow> ('g \<times> ustring) option"

function re_sub ::
  "'g matcher \<Rightarrow> ('s \<Rightarrow> 'g \<Rightarrow> ustring \<times> 's) \<Rightarrow> 's \<Rightarrow> ustring \<Rightarrow> ustring \<times> 's" where
  "re_sub m f st [] = ([], st)"
| "re_sub m f st (c # cs) =
     (case m (c # cs) of
        None \<Rightarrow> (case re_sub m f st cs of (out, st') \<Rightarrow> (c # out, st'))
      | Some (g, rest) \<Rightarrow>
          if length rest \<le> length cs
          then (case f st g of (r, st') \<Rightarrow>
                  (case re_sub m f st' rest of (out, st'') \<Rightarrow> (r @ out, st'')))
          else (case re_sub m f st cs of (out, st') \<Rightarrow> (c # out, st')))"
  by pat_completeness auto
termination
  by (relation "measure (\<lambda>(m, f, st, s). length s)") auto

text \<open>The same with a replacement that has no state, and \<open>len(pattern.findall(s))\<close>.\<close>

definition re_sub_pure :: "'g matcher \<Rightarrow> ('g \<Rightarrow> ustring) \<Rightarrow> ustring \<Rightarrow> ustring" where
  "re_sub_pure m f s = fst (re_sub m (\<lambda>st g. (f g, st)) () s)"

definition re_count :: "'g matcher \<Rightarrow> ustring \<Rightarrow> nat" where
  "re_count m s = snd (re_sub m (\<lambda>n g. ([], Suc n)) 0 s)"

text \<open>\<open>RE_INLINE_CODE = `([^`]+)`\<close>; the group is the text between the backticks.\<close>

definition match_inline_code :: "ustring matcher" where
  "match_inline_code s =
     (case s of
        [] \<Rightarrow> None
      | c # r \<Rightarrow>
          if c \<noteq> BACKTICK then None
          else (let body = takeWhile (\<lambda>x. x \<noteq> BACKTICK) r in
                if body = [] then None
                else (case dropWhile (\<lambda>x. x \<noteq> BACKTICK) r of
                        [] \<Rightarrow> None
                      | d # r' \<Rightarrow> Some (body, r'))))"

text \<open>
  \<open>RE_LINK_FULL = \[([^\]]*)\]\(([^)]+)\)\<close>; the groups are the display text and
  the URL.
\<close>

definition match_link :: "(ustring \<times> ustring) matcher" where
  "match_link s =
     (case s of
        [] \<Rightarrow> None
      | c # r \<Rightarrow>
          if c \<noteq> LBRACKET then None
          else (let display = takeWhile (\<lambda>x. x \<noteq> RBRACKET) r in
                case dropWhile (\<lambda>x. x \<noteq> RBRACKET) r of
                  d # e # r' \<Rightarrow>
                    if e \<noteq> LPAREN then None
                    else (let url = takeWhile (\<lambda>x. x \<noteq> RPAREN) r' in
                          if url = [] then None
                          else (case dropWhile (\<lambda>x. x \<noteq> RPAREN) r' of
                                  [] \<Rightarrow> None
                                | p # r'' \<Rightarrow> Some ((display, url), r'')))
                | _ \<Rightarrow> None))"

text \<open>\<open>RE_BOLD_LINK = \*\*\[([^\]]*)\]\(([^)]+)\)\*\*\<close>.\<close>

definition match_bold_link :: "(ustring \<times> ustring) matcher" where
  "match_bold_link s =
     (case s of
        a # b # r \<Rightarrow>
          if a = STAR \<and> b = STAR
          then (case match_link r of
                  Some (g, x # y # r') \<Rightarrow> if x = STAR \<and> y = STAR then Some (g, r') else None
                | _ \<Rightarrow> None)
          else None
      | _ \<Rightarrow> None)"

text \<open>
  \<open>RE_BOLD_TEXT = \*\*(.+?)\*\*\<close>. The group is lazy: after its first character
  the closing \<open>**\<close> is tried before every further character, and \<open>.\<close> is any
  character but a newline. \<open>bold_close\<close> is that loop.
\<close>

fun bold_close :: "ustring matcher" where
  "bold_close (a # b # r) =
     (if a = STAR \<and> b = STAR then Some ([], r)
      else if a = NL then None
      else (case bold_close (b # r) of None \<Rightarrow> None | Some (c, r') \<Rightarrow> Some (a # c, r')))"
| "bold_close [a] = None"
| "bold_close [] = None"

definition match_bold :: "ustring matcher" where
  "match_bold s =
     (case s of
        a # b # c # r \<Rightarrow>
          if a = STAR \<and> b = STAR \<and> c \<noteq> NL
          then (case bold_close r of None \<Rightarrow> None | Some (cont, r') \<Rightarrow> Some (c # cont, r'))
          else None
      | _ \<Rightarrow> None)"

text \<open>\<open>\*+\<close>: a run of asterisks.\<close>

definition match_stars :: "unit matcher" where
  "match_stars s =
     (if takeWhile (\<lambda>x. x = STAR) s = [] then None
      else Some ((), dropWhile (\<lambda>x. x = STAR) s))"

text \<open>A single character of a class, as in \<open>[^a-z0-9\s-]\<close>.\<close>

definition match_char :: "(uchar \<Rightarrow> bool) \<Rightarrow> unit matcher" where
  "match_char P s = (case s of [] \<Rightarrow> None | c # r \<Rightarrow> if P c then Some ((), r) else None)"

section \<open>Heading anchors\<close>

text \<open>
  \<open>str.lower()\<close>, character by character: ASCII and Latin-1 capitals, and the two
  code points outside ASCII whose lower-case form holds an ASCII letter (U+0130 and
  U+212A). The interpreter's table maps further code points; their lower-case forms
  are neither ASCII nor whitespace, so \<open>text_to_anchor\<close>, which removes every such
  character right after lower-casing, returns the same slug.
\<close>

definition lower_char :: "uchar \<Rightarrow> ustring" where
  "lower_char c =
     (if 65 \<le> c \<and> c \<le> 90 then [c + 32]
      else if (192 \<le> c \<and> c \<le> 214) \<or> (216 \<le> c \<and> c \<le> 222) then [c + 32]
      else if c = 304 then [105, 775]
      else if c = 8490 then [107]
      else [c])"

definition py_lower :: "ustring \<Rightarrow> ustring" where
  "py_lower s = concat (map lower_char s)"

definition anchor_keep :: "uchar \<Rightarrow> bool" where
  "anchor_keep c \<longleftrightarrow> (97 \<le> c \<and> c \<le> 122) \<or> (48 \<le> c \<and> c \<le> 57) \<or> is_space c \<or> c = HYPHEN"

text \<open>
  \<open>text_to_anchor\<close>, statement by statement:
  \<^verbatim>\<open>
    text = re.sub(r"`([^`]+)`", r"\1", text)
    text = re.sub(r"\[([^\]]*)\]\([^)]+\)", r"\1", text)
    text = re.sub(r"\*+", "", text)
    text = text.strip().lower()
    text = re.sub(r"[^a-z0-9\s-]", "", text)
    text = text.replace(" ", "-")
  \<close>
\<close>

definition text_to_anchor :: "ustring \<Rightarrow> ustring" where
  "text_to_anchor text =
     (let t1 = re_sub_pure match_inline_code (\<lambda>g. g) text;
          t2 = re_sub_pure match_link (\<lambda>(display, url). display) t1;
          t3 = re_sub_pure match_stars (\<lambda>_. []) t2;
          t4 = py_lower (strip t3);
          t5 = re_sub_pure (match_char (\<lambda>c. \<not> anchor_keep c)) (\<lambda>_. []) t4
      in py_replace [SPACE] [HYPHEN] t5)"



section \<open>Line classification\<close>

datatype line_type = Code | PassThrough | Translatable

text \<open>
  \<open>RE_TABLE_SEP = ^\|[-\s|:]+\|$\<close>, tried on the stripped line. The pipe is in the
  class of the run, so the run gives back its last character to the closing pipe;
  \<open>$\<close> holds at the end of the string and before a newline that ends it.
\<close>

definition table_sep_char :: "uchar \<Rightarrow> bool" where
  "table_sep_char c \<longleftrightarrow> c = HYPHEN \<or> is_space c \<or> c = PIPE \<or> c = COLON"

definition sep_body :: "ustring \<Rightarrow> bool" where
  "sep_body r \<longleftrightarrow> 2 \<le> length r \<and> last r = PIPE \<and> list_all table_sep_char (butlast r)"

definition re_table_sep :: "ustring \<Rightarrow> bool" where
  "re_table_sep s =
     (case s of
        [] \<Rightarrow> False
      | c # r \<Rightarrow> c = PIPE \<and> (sep_body r \<or> (r \<noteq> [] \<and> last r = NL \<and> sep_body (butlast r))))"

text \<open>
  \<open>RE_ASCII_ART = ^[\s]*[...]{3,}\<close> with the class of box-drawing characters
  U+2502 U+251C U+2514 U+250C U+2510 U+2518 U+2524 U+252C U+2534 U+253C U+2500 and
  \<open>| + - \ / > < = *\<close>. The string that \<open>is_ascii_art_line\<close> counts against holds
  the same box-drawing characters and \<open>| + \ / > < =\<close>: no hyphen and no asterisk.
\<close>

definition box_char :: "uchar \<Rightarrow> bool" where
  "box_char c \<longleftrightarrow> c \<in> set [9474, 9500, 9492, 9484, 9488, 9496, 9508, 9516, 9524, 9532, 9472]"

definition art_regex_char :: "uchar \<Rightarrow> bool" where
  "art_regex_char c \<longleftrightarrow> box_char c \<or> c \<in> set [PIPE, PLUS, HYPHEN, 92, 47, GT, 60, 61, STAR]"

definition art_count_char :: "uchar \<Rightarrow> bool" where
  "art_count_char c \<longleftrightarrow> box_char c \<or> c \<in> set [PIPE, PLUS, 92, 47, GT, 60, 61]"

definition re_ascii_art :: "ustring \<Rightarrow> bool" where
  "re_ascii_art line \<longleftrightarrow> 3 \<le> length (takeWhile art_regex_char (dropWhile is_space line))"

text \<open>
  \<open>is_ascii_art_line\<close>. The test \<open>special / len(stripped) > 0.4\<close> divides two
  integers as floats; for every line shorter than \<open>2^51\<close> characters it holds
  exactly when \<open>5 * special > 2 * len(stripped)\<close>, which is what is written here.
\<close>

definition is_ascii_art_line :: "ustring \<Rightarrow> bool" where
  "is_ascii_art_line line =
     (let stripped = strip line in
      if stripped = [] then False
      else if re_ascii_art line then True
      else 2 * length stripped < 5 * length (filter art_count_char stripped))"

text \<open>Phase 1 of \<open>translate_markdown_file\<close>; the flag is \<open>in_code_block\<close>.\<close>

fun classify_lines :: "bool \<Rightarrow> ustring list \<Rightarrow> line_type list" where
  "classify_lines in_code_block [] = []"
| "classify_lines in_code_block (line # rest) =
     (let stripped = strip line in
      if startswith stripped (ustr ''```'') then Code # classify_lines (\<not> in_code_block) rest
      else if in_code_block then Code # classify_lines in_code_block rest
      else if stripped = [] then PassThrough # classify_lines in_code_block rest
      else if re_table_sep stripped then PassThrough # classify_lines in_code_block rest
      else if is_ascii_art_line line then PassThrough # classify_lines in_code_block rest
      else Translatable # classify_lines in_code_block rest)"

section \<open>Inline protection and restoration\<close>

text \<open>
  The placeholder map is a Python dict: insertion-ordered, one entry per key. It is
  an association list in insertion order; \<open>dict_set\<close> is \<open>d[k] = v\<close>.
\<close>

type_synonym phmap = "(ustring \<times> ustring) list"

fun dict_set :: "phmap \<Rightarrow> ustring \<Rightarrow> ustring \<Rightarrow> phmap" where
  "dict_set [] k v = [(k, v)]"
| "dict_set ((k', v') # d) k v =
     (if k' = k then (k', v) # d else (k', v') # dict_set d k v)"

definition make_placeholder :: "nat \<Rightarrow> ustring" where
  "make_placeholder idx = PH_PREFIX # py_str idx @ [PH_SUFFIX]"

text \<open>The state of the callbacks: \<open>counter[0]\<close> and \<open>placeholders\<close>.\<close>

type_synonym pstate = "nat \<times> phmap"

definition replace_bold_link :: "pstate \<Rightarrow> ustring \<times> ustring \<Rightarrow> ustring \<times> pstate" where
  "replace_bold_link st g =
     (case st of (n, d) \<Rightarrow> case g of (display, url) \<Rightarrow>
        (let ph = make_placeholder n;
             group0 = ustr ''**['' @ display @ ustr ''](''  @ url @ ustr '')**''
         in (ph, (Suc n, dict_set d ph group0))))"

definition replace_link :: "pstate \<Rightarrow> ustring \<times> ustring \<Rightarrow> ustring \<times> pstate" where
  "replace_link st g =
     (case st of (n, d) \<Rightarrow> case g of (display, url) \<Rightarrow>
        (let ph_open = make_placeholder n;
             d1 = dict_set d ph_open [LBRACKET];
             ph_close = make_placeholder (Suc n);
             d2 = dict_set d1 ph_close (ustr ''](''  @ url @ [RPAREN])
         in (ph_open @ display @ ph_close, (Suc (Suc n), d2))))"

definition replace_inline_code :: "pstate \<Rightarrow> ustring \<Rightarrow> ustring \<times> pstate" where
  "replace_inline_code st body =
     (case st of (n, d) \<Rightarrow>
        (let ph = make_placeholder n
         in (ph, (Suc n, dict_set d ph (BACKTICK # body @ [BACKTICK])))))"

definition replace_bold :: "pstate \<Rightarrow> ustring \<Rightarrow> ustring \<times> pstate" where
  "replace_bold st inner =
     (case st of (n, d) \<Rightarrow>
        (let ph_open = make_placeholder n;
             d1 = dict_set d ph_open [STAR, STAR];
             ph_close = make_placeholder (Suc n);
             d2 = dict_set d1 ph_close [STAR, STAR]
         in (ph_open @ inner @ ph_close, (Suc (Suc n), d2))))"

definition protect_inline_elements :: "ustring \<Rightarrow> ustring \<times> phmap" where
  "protect_inline_elements text =
     (case re_sub match_bold_link replace_bold_link (0, []) text of (p1, st1) \<Rightarrow>
      case re_sub match_link replace_link st1 p1 of (p2, st2) \<Rightarrow>
      case re_sub match_inline_code replace_inline_code st2 p2 of (p3, st3) \<Rightarrow>
      case re_sub match_bold replace_bold st3 p3 of (p4, st4) \<Rightarrow>
        (p4, snd st4))"

text \<open>
  The pattern of a placeholder token, \<open>PH_PREFIX \d+ PH_SUFFIX\<close>; the group is the
  whole token.
\<close>

definition match_token :: "ustring matcher" where
  "match_token s =
     (case s of
        [] \<Rightarrow> None
      | c # r \<Rightarrow>
          if c \<noteq> PH_PREFIX then None
          else (let ds = takeWhile is_digit r in
                if ds = [] then None
                else (case dropWhile is_digit r of
                        [] \<Rightarrow> None
                      | e # r' \<Rightarrow> if e = PH_SUFFIX then Some (PH_PREFIX # ds @ [PH_SUFFIX], r')
                                  else None)))"

text \<open>\<open>,\s*,\<close> and \<open>,\s*\)\<close>: a comma, whitespace, then the character \<open>c\<close>.\<close>

definition match_comma_then :: "uchar \<Rightarrow> unit matcher" where
  "match_comma_then c s =
     (case s of
        [] \<Rightarrow> None
      | a # r \<Rightarrow>
          if a \<noteq> COMMA then None
          else (case dropWhile is_space r of
                  [] \<Rightarrow> None
                | e # r' \<Rightarrow> if e = c then Some ((), r') else None))"

definition clean_spurious :: "ustring list \<Rightarrow> ustring \<Rightarrow> ustring" where
  "clean_spurious known tok = (if tok \<in> set known then tok else [])"

text \<open>
  \<open>sorted(placeholders.items(), key=lambda x: -len(x[0]))\<close>: a stable sort, longest
  key first.
\<close>

definition sorted_items :: "phmap \<Rightarrow> phmap" where
  "sorted_items d = sort_key (\<lambda>x. - int (length (fst x))) d"

definition substitute :: "ustring \<Rightarrow> phmap \<Rightarrow> ustring" where
  "substitute text d = fold (\<lambda>(ph, original) result. py_replace ph original result) (sorted_items d) text"

definition restore_placeholders :: "ustring \<Rightarrow> phmap \<Rightarrow> ustring" where
  "restore_placeholders text d =
     (let result = substitute text d;
          result = re_sub_pure match_token (clean_spurious (map fst d)) result;
          result = re_sub_pure (match_comma_then COMMA) (\<lambda>_. [COMMA]) result;
          result = re_sub_pure (match_comma_then RPAREN) (\<lambda>_. [RPAREN]) result
      in result)"

section \<open>Segment extraction\<close>

text \<open>
  \<open>RE_HEADING = ^(#{1,6}\s+)\<close>, \<open>RE_BLOCKQUOTE = ^(\s*>\s*)\<close> and the list marker
  \<open>^(\s*[-*+]\s+|\s*\d+\.\s+)\<close>, each tried with \<open>match\<close> at the start of the text;
  the group is the matched prefix.
\<close>

definition match_heading :: "ustring matcher" where
  "match_heading s =
     (let hashes = takeWhile (\<lambda>c. c = HASH) s;
          r = dropWhile (\<lambda>c. c = HASH) s;
          ws = takeWhile is_space r
      in if 1 \<le> length hashes \<and> length hashes \<le> 6 \<and> ws \<noteq> []
         then Some (hashes @ ws, dropWhile is_space r) else None)"

definition match_blockquote :: "ustring matcher" where
  "match_blockquote s =
     (let ws = takeWhile is_space s in
      case dropWhile is_space s of
        [] \<Rightarrow> None
      | c # r \<Rightarrow>
          if c = GT then Some (ws @ [GT] @ takeWhile is_space r, dropWhile is_space r)
          else None)"

definition match_list_marker :: "ustring matcher" where
  "match_list_marker s =
     (let ws = takeWhile is_space s in
      case dropWhile is_space s of
        [] \<Rightarrow> None
      | c # r \<Rightarrow>
          if c = HYPHEN \<or> c = STAR \<or> c = PLUS
          then (if takeWhile is_space r = [] then None
                else Some (ws @ [c] @ takeWhile is_space r, dropWhile is_space r))
          else (let ds = takeWhile is_digit (c # r) in
                if ds = [] then None
                else (case dropWhile is_digit (c # r) of
                        [] \<Rightarrow> None
                      | e # r' \<Rightarrow>
                          if e = DOT \<and> takeWhile is_space r' \<noteq> []
                          then Some (ws @ ds @ [DOT] @ takeWhile is_space r',
                                     dropWhile is_space r')
                          else None)))"

text \<open>
  A segment is a dict in the source; the key \<open>"translated"\<close> is absent until phase 5
  sets it, which is \<open>None\<close> here.
\<close>

record cell =
  cell_text :: ustring
  cell_placeholders :: phmap
  cell_translated :: "ustring option"

datatype segment =
    TextSeg nat ustring ustring phmap "ustring option"
  | TableRow nat ustring "cell list"

fun line_idx :: "segment \<Rightarrow> nat" where
  "line_idx (TextSeg i pre body phs tr) = i"
| "line_idx (TableRow i pre cells) = i"

text \<open>The three prefix steps of phase 2: the prefix and the remaining text.\<close>

definition strip_prefixes :: "ustring \<Rightarrow> ustring \<times> ustring" where
  "strip_prefixes line =
     (case (case match_heading line of Some (g, rest) \<Rightarrow> (g, rest) | None \<Rightarrow> ([], line))
      of (p1, t1) \<Rightarrow>
        (case (case match_blockquote t1 of Some (g, rest) \<Rightarrow> (p1 @ g, rest) | None \<Rightarrow> (p1, t1))
         of (p2, t2) \<Rightarrow>
           (case match_list_marker t2 of Some (g, rest) \<Rightarrow> (p2 @ g, rest) | None \<Rightarrow> (p2, t2))))"

definition make_cell :: "ustring \<Rightarrow> cell" where
  "make_cell c =
     (let stripped_cell = strip c in
      if stripped_cell \<noteq> []
      then (case protect_inline_elements stripped_cell of (protected, phs) \<Rightarrow>
              \<lparr>cell_text = protected, cell_placeholders = phs, cell_translated = None\<rparr>)
      else \<lparr>cell_text = [], cell_placeholders = [], cell_translated = None\<rparr>)"

definition extract_segment :: "nat \<Rightarrow> ustring \<Rightarrow> segment option" where
  "extract_segment i line =
     (case strip_prefixes line of (pre, text) \<Rightarrow>
        if startswith (strip text) [PIPE] \<and> endswith (strip text) [PIPE]
        then Some (TableRow i pre (map make_cell (split_on PIPE text)))
        else if strip text = [] then None
        else (case protect_inline_elements text of (protected, phs) \<Rightarrow>
                Some (TextSeg i pre protected phs None)))"

fun extract_segments :: "nat \<Rightarrow> (ustring \<times> line_type) list \<Rightarrow> segment list" where
  "extract_segments i [] = []"
| "extract_segments i ((line, ltype) # rest) =
     (if ltype \<noteq> Translatable then extract_segments (Suc i) rest
      else (case extract_segment i line of
              None \<Rightarrow> extract_segments (Suc i) rest
            | Some seg \<Rightarrow> seg # extract_segments (Suc i) rest))"

section \<open>Batching and mapping back\<close>

text \<open>
  \<open>text_indices\<close> holds \<open>(seg_idx, "text")\<close> or \<open>(seg_idx, "cell:<j>")\<close>; the
  string key is a datatype here. \<open>texts_to_translate\<close> and \<open>text_indices\<close> are filled
  together, so phase 3 returns one list of pairs.
\<close>

datatype key = KText | KCell nat

fun collect_cells :: "nat \<Rightarrow> nat \<Rightarrow> cell list \<Rightarrow> (ustring \<times> nat \<times> key) list" where
  "collect_cells seg_idx cell_idx [] = []"
| "collect_cells seg_idx cell_idx (c # cs) =
     (if cell_text c \<noteq> [] then (cell_text c, seg_idx, KCell cell_idx) # collect_cells seg_idx (Suc cell_idx) cs
      else collect_cells seg_idx (Suc cell_idx) cs)"

fun collect_texts :: "nat \<Rightarrow> segment list \<Rightarrow> (ustring \<times> nat \<times> key) list" where
  "collect_texts seg_idx [] = []"
| "collect_texts seg_idx (TextSeg i pre body phs tr # segs) =
     (body, seg_idx, KText) # collect_texts (Suc seg_idx) segs"
| "collect_texts seg_idx (TableRow i pre cells # segs) =
     collect_cells seg_idx 0 cells @ collect_texts (Suc seg_idx) segs"

text \<open>
  Phase 5, one step of the loop over \<open>zip(text_indices, translated_texts)\<close>. Phase 3
  only produces a \<open>"text"\<close> key for a text segment and a cell key for a cell of a
  table row, so the last equation is never used.
\<close>

fun attach :: "key \<Rightarrow> ustring \<Rightarrow> segment \<Rightarrow> segment" where
  "attach KText translated (TextSeg i pre body phs tr) = TextSeg i pre body phs (Some translated)"
| "attach (KCell j) translated (TableRow i pre cells) =
     TableRow i pre (if j < length cells
                     then cells[j := (cells ! j)\<lparr>cell_translated := Some translated\<rparr>]
                     else cells)"
| "attach k translated seg = seg"

definition map_back :: "segment list \<Rightarrow> ((nat \<times> key) \<times> ustring) list \<Rightarrow> segment list" where
  "map_back segs pairs =
     fold (\<lambda>((seg_idx, k), translated) ss.
             if seg_idx < length ss then ss[seg_idx := attach k translated (ss ! seg_idx)] else ss)
          pairs segs"

section \<open>Reconstruction\<close>

definition rebuild_cell :: "cell \<Rightarrow> ustring" where
  "rebuild_cell c =
     (if cell_text c \<noteq> []
      then [SPACE] @ restore_placeholders
             (case cell_translated c of Some t \<Rightarrow> t | None \<Rightarrow> cell_text c) (cell_placeholders c)
           @ [SPACE]
      else [])"

definition rebuild_row :: "cell list \<Rightarrow> ustring" where
  "rebuild_row cells =
     (let l0 = join [PIPE] (map rebuild_cell cells);
          l1 = (if \<not> startswith l0 [PIPE] then [PIPE] @ l0 else l0);
          l2 = (if \<not> endswith l1 [PIPE] then l1 @ [PIPE] else l1)
      in l2)"

fun reconstruct :: "segment \<Rightarrow> ustring" where
  "reconstruct (TextSeg i pre body phs tr) =
     pre @ restore_placeholders (case tr of Some t \<Rightarrow> t | None \<Rightarrow> body) phs"
| "reconstruct (TableRow i pre cells) = rebuild_row cells"

definition reconstruct_lines :: "ustring list \<Rightarrow> segment list \<Rightarrow> ustring list" where
  "reconstruct_lines lines segs = fold (\<lambda>seg out. out[line_idx seg := reconstruct seg]) segs lines"

text \<open>
  \<open>_fix_bold_span\<close>: \<open>content\<close> is group 1 of \<open>\*\*(.+?)\*\*\<close>, and \<open>m.group(0)\<close> is
  the content between its two markers.
\<close>

definition sp_tab :: "uchar \<Rightarrow> bool" where
  "sp_tab c \<longleftrightarrow> c = SPACE \<or> c = TAB"

definition fix_bold_span :: "ustring \<Rightarrow> ustring" where
  "fix_bold_span content0 =
     (case (if content0 \<noteq> [] \<and> sp_tab (hd content0)
            then ([hd content0], dropWhile sp_tab content0) else ([], content0))
      of (pre, content1) \<Rightarrow>
      case (if content1 \<noteq> [] \<and> sp_tab (last content1)
            then ([last content1], rev (dropWhile sp_tab (rev content1))) else ([], content1))
      of (suf, content2) \<Rightarrow>
        if content2 = [] then [STAR, STAR] @ content0 @ [STAR, STAR]
        else pre @ [STAR, STAR] @ content2 @ [STAR, STAR] @ suf)"

definition fix_bold_line :: "ustring \<Rightarrow> ustring" where
  "fix_bold_line line = re_sub_pure match_bold fix_bold_span line"

text \<open>
  \<open>re.sub\<close> with \<open>re.MULTILINE\<close> for a pattern that begins with \<open>^\<close>: the pattern is
  tried only at the start of the string and after a newline. \<open>bol\<close> says whether the
  current position is such a place.
\<close>

function re_sub_ml :: "'g matcher \<Rightarrow> ('g \<Rightarrow> ustring) \<Rightarrow> bool \<Rightarrow> ustring \<Rightarrow> ustring" where
  "re_sub_ml m f bol [] = []"
| "re_sub_ml m f bol (c # cs) =
     (case (if bol then m (c # cs) else None) of
        None \<Rightarrow> c # re_sub_ml m f (c = NL) cs
      | Some (g, rest) \<Rightarrow>
          if length rest \<le> length cs
          then f g @ re_sub_ml m f (last (take (length (c # cs) - length rest) (c # cs)) = NL) rest
          else c # re_sub_ml m f (c = NL) cs)"
  by pat_completeness auto
termination
  by (relation "measure (\<lambda>(m, f, bol, s). length s)") auto

text \<open>\<open>(\s*[-*+])\*\*\<close> and \<open>(\s*\d+\.)\*\*\<close> after the \<open>^\<close>; the group is group 1.\<close>

definition match_bullet_bold :: "ustring matcher" where
  "match_bullet_bold s =
     (case dropWhile is_space s of
        c # a # b # r \<Rightarrow>
          if (c = HYPHEN \<or> c = STAR \<or> c = PLUS) \<and> a = STAR \<and> b = STAR
          then Some (takeWhile is_space s @ [c], r) else None
      | _ \<Rightarrow> None)"

definition match_ordinal_bold :: "ustring matcher" where
  "match_ordinal_bold s =
     (let r = dropWhile is_space s; ds = takeWhile is_digit r in
      if ds = [] then None
      else (case dropWhile is_digit r of
              c # a # b # r' \<Rightarrow>
                if c = DOT \<and> a = STAR \<and> b = STAR
                then Some (takeWhile is_space s @ ds @ [DOT], r') else None
            | _ \<Rightarrow> None))"

definition post_process :: "ustring \<Rightarrow> ustring" where
  "post_process result0 =
     (let result1 = join [NL] (map fix_bold_line (split_on NL result0));
          result2 = re_sub_ml match_bullet_bold (\<lambda>g. g @ ustr '' **'') True result1;
          result3 = re_sub_ml match_ordinal_bold (\<lambda>g. g @ ustr '' **'') True result2
      in result3)"

section \<open>The pipeline\<close>

text \<open>
  The backend is \<open>translator.translate_batch\<close>. A backend that gives up calls
  \<open>sys.exit(1)\<close>; that is the only way \<open>translate_markdown_file\<close> stops without a
  result once the file is read, and it is the error value here. The argument
  \<open>content\<close> is what \<open>source_path.read_text\<close> returned.
\<close>

datatype error = SystemExit

type_synonym backend = "ustring list \<Rightarrow> error + ustring list"

definition segments_of :: "ustring \<Rightarrow> segment list" where
  "segments_of content =
     (let lines = split_on NL content;
          line_types = classify_lines False lines
      in extract_segments 0 (zip lines line_types))"

definition finish :: "ustring list \<Rightarrow> segment list \<Rightarrow> ustring list \<Rightarrow> ustring" where
  "finish lines segments translated_texts =
     (let text_indices = map snd (collect_texts 0 segments);
          segments' = map_back segments (zip text_indices translated_texts);
          output_lines = reconstruct_lines lines segments'
      in post_process (join [NL] output_lines))"

definition translate_markdown_file :: "ustring \<Rightarrow> backend \<Rightarrow> error + ustring" where
  "translate_markdown_file content translator =
     (let lines = split_on NL content;
          segments = segments_of content;
          texts_to_translate = map fst (collect_texts 0 segments)
      in case (if texts_to_translate \<noteq> [] then translator texts_to_translate else Inr []) of
           Inl e \<Rightarrow> Inl e
         | Inr translated_texts \<Rightarrow> Inr (finish lines segments translated_texts))"

definition identity_backend :: backend where
  "identity_backend texts = Inr texts"

section \<open>Validation\<close>

text \<open>
  \<open>validate_translation\<close> returns messages; a message is a constructor with the two
  counts it prints. \<open>^#{1,6}\s\<close> is counted with \<open>re.MULTILINE\<close>. The ratio test
  \<open>ratio < 0.8 or ratio > 1.2\<close> on the float \<open>tgt_lines / src_lines\<close> is written on
  the integers: \<open>5 * tgt < 4 * src\<close> or \<open>5 * tgt > 6 * src\<close>.
\<close>

datatype warning =
    CodeBlockCount nat nat
  | HeadingCount nat nat
  | LinkCount nat nat
  | LineRatio nat nat
  | Unrestored nat

definition match_heading_start :: "unit matcher" where
  "match_heading_start s =
     (let hashes = takeWhile (\<lambda>c. c = HASH) s in
      case dropWhile (\<lambda>c. c = HASH) s of
        [] \<Rightarrow> None
      | c # r \<Rightarrow>
          if 1 \<le> length hashes \<and> length hashes \<le> 6 \<and> is_space c then Some ((), r) else None)"

function re_count_ml :: "'g matcher \<Rightarrow> bool \<Rightarrow> ustring \<Rightarrow> nat" where
  "re_count_ml m bol [] = 0"
| "re_count_ml m bol (c # cs) =
     (case (if bol then m (c # cs) else None) of
        None \<Rightarrow> re_count_ml m (c = NL) cs
      | Some (g, rest) \<Rightarrow>
          if length rest \<le> length cs
          then Suc (re_count_ml m (last (take (length (c # cs) - length rest) (c # cs)) = NL) rest)
          else re_count_ml m (c = NL) cs)"
  by pat_completeness auto
termination
  by (relation "measure (\<lambda>(m, bol, s). length s)") auto

definition validate_translation :: "ustring \<Rightarrow> ustring \<Rightarrow> warning list" where
  "validate_translation source translated =
     (let src_blocks = py_count (ustr ''```'') source;
          tgt_blocks = py_count (ustr ''```'') translated;
          e1 = (if src_blocks \<noteq> tgt_blocks then [CodeBlockCount src_blocks tgt_blocks] else []);
          src_headings = re_count_ml match_heading_start True source;
          tgt_headings = re_count_ml match_heading_start True translated;
          e2 = (if src_headings \<noteq> tgt_headings then [HeadingCount src_headings tgt_headings] else []);
          src_links = re_count match_link source;
          tgt_links = re_count match_link translated;
          e3 = (if src_links \<noteq> tgt_links then [LinkCount src_links tgt_links] else []);
          src_lines = py_count [NL] source;
          tgt_lines = py_count [NL] translated;
          e4 = (if 0 < src_lines \<and> (5 * tgt_lines < 4 * src_lines \<or> 6 * src_lines < 5 * tgt_lines)
                then [LineRatio src_lines tgt_lines] else []);
          leftover = re_count match_token translated;
          e5 = (if 0 < leftover then [Unrestored leftover] else [])
      in e1 @ e2 @ e3 @ e4 @ e5)"

section \<open>Reference definitions for the classifier\<close>

text \<open>
  The classification as the specification words it: a line is a fence when its
  trimmed content begins with three backticks; the flag toggles on every fence; a
  fence and a line under the flag are Code; outside code a blank line, a
  table-separator line (composed solely of pipes, dashes, colons and whitespace) and
  an ASCII-art line are PassThrough, where ASCII art is either three or more
  glyphs at the start of the left-trimmed line, or more than 40% of the trimmed
  line's characters in that same glyph set.
\<close>

definition is_fence_line :: "ustring \<Rightarrow> bool" where
  "is_fence_line line \<longleftrightarrow> startswith (strip line) (ustr ''```'')"

definition spec_table_sep :: "ustring \<Rightarrow> bool" where
  "spec_table_sep line \<longleftrightarrow> list_all table_sep_char (strip line)"

definition spec_ascii_art :: "ustring \<Rightarrow> bool" where
  "spec_ascii_art line \<longleftrightarrow>
     3 \<le> length (takeWhile art_regex_char (lstrip line)) \<or>
     2 * length (strip line) < 5 * length (filter art_regex_char (strip line))"

definition spec_outside :: "ustring \<Rightarrow> line_type" where
  "spec_outside line =
     (if strip line = [] \<or> spec_table_sep line \<or> spec_ascii_art line then PassThrough
      else Translatable)"

fun classify_spec :: "bool \<Rightarrow> ustring list \<Rightarrow> line_type list" where
  "classify_spec inside [] = []"
| "classify_spec inside (line # rest) =
     (if is_fence_line line then Code # classify_spec (\<not> inside) rest
      else if inside then Code # classify_spec inside rest
      else spec_outside line # classify_spec inside rest)"

text \<open>
  The same with the two tests the code makes: a table separator is a pipe, one or
  more characters among pipes, dashes, colons and whitespace, and a closing pipe;
  the 40% ratio counts the glyph set without the hyphen and the asterisk. The class
  of line \<open>i\<close> is given directly: the flag at line \<open>i\<close> is the parity of the number
  of fences before it.
\<close>

definition ref_table_sep :: "ustring \<Rightarrow> bool" where
  "ref_table_sep line \<longleftrightarrow>
     3 \<le> length (strip line) \<and> hd (strip line) = PIPE \<and> last (strip line) = PIPE \<and>
     list_all table_sep_char (strip line)"

definition ref_ascii_art :: "ustring \<Rightarrow> bool" where
  "ref_ascii_art line \<longleftrightarrow>
     3 \<le> length (takeWhile art_regex_char (lstrip line)) \<or>
     2 * length (strip line) < 5 * length (filter art_count_char (strip line))"

definition ref_outside :: "ustring \<Rightarrow> line_type" where
  "ref_outside line =
     (if strip line = [] \<or> ref_table_sep line \<or> ref_ascii_art line then PassThrough
      else Translatable)"

definition ref_class :: "ustring list \<Rightarrow> nat \<Rightarrow> line_type" where
  "ref_class lines i =
     (if is_fence_line (lines ! i) \<or> odd (length (filter is_fence_line (take i lines)))
      then Code else ref_outside (lines ! i))"

section \<open>Reference definitions for segments and bold spans\<close>

text \<open>
  The invariant of a segment as the specification words it: the prefix followed by
  the un-protected body, or by the un-protected cells joined with pipes, is the
  original line. Un-protecting is \<open>restore_placeholders\<close> with the segment's own map.
\<close>

definition unprotect_cell :: "cell \<Rightarrow> ustring" where
  "unprotect_cell c = restore_placeholders (cell_text c) (cell_placeholders c)"

fun spec_rejoin :: "segment \<Rightarrow> ustring" where
  "spec_rejoin (TextSeg i pre body phs tr) = pre @ restore_placeholders body phs"
| "spec_rejoin (TableRow i pre cells) = pre @ join [PIPE] (map unprotect_cell cells)"

text \<open>
  \<open>content.strip(" \t")\<close>, and a bold span with all of its inner leading and trailing
  spaces and tabs moved outside the markers, as the specification words the
  post-pass.
\<close>

definition strip_sp_tab :: "ustring \<Rightarrow> ustring" where
  "strip_sp_tab c = rev (dropWhile sp_tab (rev (dropWhile sp_tab c)))"

definition moved_outside :: "ustring \<Rightarrow> ustring" where
  "moved_outside c =
     takeWhile sp_tab c @ [STAR, STAR] @ strip_sp_tab c @ [STAR, STAR] @
     rev (takeWhile sp_tab (rev c))"

section \<open>Definitions for the analysis of the mapping back\<close>

text \<open>
  The list of results that phase 5 effectively uses when the backend returns \<open>rs\<close>
  for the submitted \<open>texts\<close>: \<open>zip\<close> drops the results beyond the submitted texts,
  and a text without a result is later restored from its own protected text.
\<close>

definition aligned :: "ustring list \<Rightarrow> ustring list \<Rightarrow> ustring list" where
  "aligned texts rs = take (length texts) rs @ drop (length rs) texts"

text \<open>
  \<open>fill\<close> writes into every segment and cell the text that reconstruction uses for
  it (\<open>seg.get("translated", seg["protected_text"])\<close>); \<open>own_slot k t seg\<close> says that
  key \<open>k\<close> names a place of \<open>seg\<close> whose protected text is \<open>t\<close> and that holds no other
  translation; \<open>fresh\<close> says that nothing has been attached yet.
\<close>

definition fill_cell :: "cell \<Rightarrow> cell" where
  "fill_cell c =
     c\<lparr>cell_translated := Some (case cell_translated c of Some t \<Rightarrow> t | None \<Rightarrow> cell_text c)\<rparr>"

fun fill :: "segment \<Rightarrow> segment" where
  "fill (TextSeg i pre body phs tr) =
     TextSeg i pre body phs (Some (case tr of Some t \<Rightarrow> t | None \<Rightarrow> body))"
| "fill (TableRow i pre cells) = TableRow i pre (map fill_cell cells)"

fun own_slot :: "key \<Rightarrow> ustring \<Rightarrow> segment \<Rightarrow> bool" where
  "own_slot KText t (TextSeg i pre body phs tr) = (body = t \<and> (tr = None \<or> tr = Some t))"
| "own_slot (KCell c) t (TableRow i pre cells) =
     (c < length cells \<and> cell_text (cells ! c) = t \<and>
      (cell_translated (cells ! c) = None \<or> cell_translated (cells ! c) = Some t))"
| "own_slot k t seg = False"

fun fresh :: "segment \<Rightarrow> bool" where
  "fresh (TextSeg i pre body phs tr) = (tr = None)"
| "fresh (TableRow i pre cells) = list_all (\<lambda>c. cell_translated c = None) cells"

definition own_pair :: "segment list \<Rightarrow> (nat \<times> key) \<times> ustring \<Rightarrow> bool" where
  "own_pair S e = (case e of ((j, k), t) \<Rightarrow> j < length S \<and> own_slot k t (S ! j))"

text \<open>
  Phase 5 as the amended claim words it: the results are handed out by position.
  Walking the work items in the order of phase 3 (a text segment, or each cell of
  a table row whose text is not empty), the next work item takes the next result
  as long as there is one; a work item for which no result is left keeps what it
  has. \<open>work_cells\<close> counts the work items of a row. \<open>used_texts\<close> lists, in the
  same order, the text that reconstruction restores for each work item
  (\<open>seg.get("translated", seg["protected_text"])\<close>).
\<close>

fun place_cells :: "cell list \<Rightarrow> ustring list \<Rightarrow> cell list" where
  "place_cells [] rs = []"
| "place_cells (c # cs) rs =
     (if cell_text c \<noteq> []
      then c\<lparr>cell_translated := (case rs of [] \<Rightarrow> cell_translated c | r # rs' \<Rightarrow> Some r)\<rparr>
             # place_cells cs (drop 1 rs)
      else c # place_cells cs rs)"

definition work_cells :: "cell list \<Rightarrow> nat" where
  "work_cells cells = length (filter (\<lambda>c. cell_text c \<noteq> []) cells)"

fun place :: "segment list \<Rightarrow> ustring list \<Rightarrow> segment list" where
  "place [] rs = []"
| "place (TextSeg i pre body phs tr # segs) rs =
     TextSeg i pre body phs (case rs of [] \<Rightarrow> tr | r # rs' \<Rightarrow> Some r) # place segs (drop 1 rs)"
| "place (TableRow i pre cells # segs) rs =
     TableRow i pre (place_cells cells rs) # place segs (drop (work_cells cells) rs)"

definition used_cell :: "cell \<Rightarrow> ustring" where
  "used_cell c = (case cell_translated c of Some t \<Rightarrow> t | None \<Rightarrow> cell_text c)"

fun used_texts :: "segment list \<Rightarrow> ustring list" where
  "used_texts [] = []"
| "used_texts (TextSeg i pre body phs tr # segs) =
     (case tr of Some t \<Rightarrow> t | None \<Rightarrow> body) # used_texts segs"
| "used_texts (TableRow i pre cells # segs) =
     map used_cell (filter (\<lambda>c. cell_text c \<noteq> []) cells) @ used_texts segs"

section \<open>Definitions for the analysis of the round trip\<close>

text \<open>
  A text is stable under the punctuation clean-up of \<open>restore_placeholders\<close> when
  the two rewrites leave it as it is, that is, when it holds no comma followed by
  optional whitespace and another comma or a closing parenthesis.
\<close>

definition comma_stable :: "ustring \<Rightarrow> bool" where
  "comma_stable t \<longleftrightarrow>
     re_sub_pure (match_comma_then RPAREN) (\<lambda>_. [RPAREN])
       (re_sub_pure (match_comma_then COMMA) (\<lambda>_. [COMMA]) t) = t"

text \<open>
  A protected text read as a sequence of literal characters and placeholder
  tokens. \<open>render\<close> writes the tokens out, \<open>expand\<close> writes the stored original in
  place of each token, and \<open>partial\<close> does so for the tokens in a set only.
\<close>

datatype item = Lit uchar | Tok nat

fun render_item :: "item \<Rightarrow> ustring" where
  "render_item (Lit c) = [c]"
| "render_item (Tok n) = make_placeholder n"

definition render :: "item list \<Rightarrow> ustring" where
  "render items = concat (map render_item items)"

fun expand_item :: "phmap \<Rightarrow> item \<Rightarrow> ustring" where
  "expand_item M (Lit c) = [c]"
| "expand_item M (Tok n) = snd (M ! n)"

definition expand :: "phmap \<Rightarrow> item list \<Rightarrow> ustring" where
  "expand M items = concat (map (expand_item M) items)"

fun partial_item :: "nat set \<Rightarrow> phmap \<Rightarrow> item \<Rightarrow> ustring" where
  "partial_item S M (Lit c) = [c]"
| "partial_item S M (Tok n) = (if n \<in> S then snd (M ! n) else make_placeholder n)"

definition partial :: "nat set \<Rightarrow> phmap \<Rightarrow> item list \<Rightarrow> ustring" where
  "partial S M items = concat (map (partial_item S M) items)"

fun tok_below :: "nat \<Rightarrow> item \<Rightarrow> bool" where
  "tok_below N (Lit c) = True"
| "tok_below N (Tok n) = (n < N)"

fun lit_ok :: "item \<Rightarrow> bool" where
  "lit_ok (Lit c) = (c \<noteq> PH_PREFIX)"
| "lit_ok (Tok n) = True"

fun is_lit :: "item \<Rightarrow> bool" where
  "is_lit (Lit c) = True"
| "is_lit (Tok n) = False"

definition keys_ok :: "nat \<Rightarrow> phmap \<Rightarrow> bool" where
  "keys_ok N M \<longleftrightarrow> map fst M = map make_placeholder [0..<N]"

definition tokch :: "uchar \<Rightarrow> bool" where
  "tokch c \<longleftrightarrow> c = PH_PREFIX \<or> c = PH_SUFFIX \<or> (48 \<le> c \<and> c \<le> 57)"

definition vfree :: "ustring \<times> ustring \<Rightarrow> bool" where
  "vfree kv \<longleftrightarrow> PH_PREFIX \<notin> set (snd kv)"

definition digits_val :: "ustring \<Rightarrow> nat" where
  "digits_val ds = foldl (\<lambda>acc c. 10 * acc + (c - 48)) 0 ds"

text \<open>
  The conditions under which restoration undoes protection: the text holds no
  opening placeholder delimiter, no original stored by its protection holds one
  (no protected span inside another), and the punctuation clean-up leaves the text
  as it is. \<open>is_table_row\<close> is the test of phase 2 for a table row.
\<close>

definition round_trip_ok :: "ustring \<Rightarrow> bool" where
  "round_trip_ok t \<longleftrightarrow>
     PH_PREFIX \<notin> set t \<and>
     list_all (\<lambda>(ph, original). PH_PREFIX \<notin> set original) (snd (protect_inline_elements t)) \<and>
     comma_stable t"

definition is_table_row :: "ustring \<Rightarrow> bool" where
  "is_table_row text \<longleftrightarrow> startswith (strip text) [PIPE] \<and> endswith (strip text) [PIPE]"

text \<open>
  \<open>pattern.search(s) is not None\<close>, for a pattern that matches no empty string: the
  pattern matches at some position of the text.
\<close>

fun re_search :: "'g matcher \<Rightarrow> ustring \<Rightarrow> bool" where
  "re_search m [] = False"
| "re_search m (c # cs) = (m (c # cs) \<noteq> None \<or> re_search m cs)"

section \<open>Evaluation on concrete inputs\<close>

lemmas str_eval = ustr_def is_space_def is_digit_def digit_zeros_def lstrip_def rstrip_def
  strip_def startswith_def endswith_def py_replace.simps py_count.simps py_str.simps Let_def

lemmas re_eval = re_sub_pure_def re_count_def match_inline_code_def match_link_def
  match_bold_link_def match_bold_def match_stars_def match_char_def match_token_def
  match_comma_then_def match_heading_def match_blockquote_def match_list_marker_def
  match_bullet_bold_def match_ordinal_bold_def match_heading_start_def

lemmas classify_eval = table_sep_char_def sep_body_def re_table_sep_def box_char_def
  art_regex_char_def art_count_char_def re_ascii_art_def is_ascii_art_line_def

lemmas protect_eval = make_placeholder_def replace_bold_link_def replace_link_def
  replace_inline_code_def replace_bold_def protect_inline_elements_def clean_spurious_def
  sorted_items_def substitute_def restore_placeholders_def

lemmas pipeline_eval = strip_prefixes_def make_cell_def extract_segment_def map_back_def
  rebuild_cell_def rebuild_row_def reconstruct_lines_def sp_tab_def fix_bold_span_def
  fix_bold_line_def post_process_def segments_of_def finish_def translate_markdown_file_def
  identity_backend_def validate_translation_def

section \<open>Heading anchors: the slug of an accented heading\<close>

text \<open>
  C5. The claim: the slug keeps the letters of the heading, and for the spec's Spanish
  heading (inverted question mark, \<open>Qu\<close>, e with acute accent, space, \<open>es\<close>,
  question mark; code points 191 81 117 233 32 101 115 63) the source slug is the one
  derived from the four-letter word with the accented e, a hyphen and \<open>es\<close>. The
  code's class \<open>[^a-z0-9\s-]\<close> removes every letter outside a-z, so the accented
  letter is dropped: the slug computed for that heading is \<open>qu-es\<close>.
\<close>

theorem text_to_anchor_drops_accented_letter:
  "text_to_anchor [191, 81, 117, 233, 32, 101, 115, 63] = ustr ''qu-es''"
  by (simp add: text_to_anchor_def py_lower_def lower_char_def anchor_keep_def str_eval re_eval)

section \<open>Code lines and the emphasis post-pass\<close>

text \<open>
  C3. The claim: a line classified Code is unchanged at its index in the output,
  whatever the backend returns. The post-pass of \<open>translate_markdown_file\<close> runs over
  every line of the joined result, code lines included: with the backend that returns
  its input, the code line \<open>x = a ** b ** c\<close> between two fences comes out as
  \<open>x = a  **b**  c\<close>.
\<close>

theorem post_pass_rewrites_code_line:
  "translate_markdown_file
     (ustr ''```'' @ [NL] @ ustr ''x = a ** b ** c'' @ [NL] @ ustr ''```'') identity_backend
   = Inr (ustr ''```'' @ [NL] @ ustr ''x = a  **b**  c'' @ [NL] @ ustr ''```'')"
  by (simp add: str_eval re_eval classify_eval protect_eval pipeline_eval)

section \<open>Validation after an identity translation\<close>

text \<open>
  C9. The claim: with a backend that returns its input, \<open>validate_translation\<close> of a
  document and its output gives no warning. For the one-line document that is a link
  written inside an inline code span, the link is protected first and the code span,
  which then holds the link's two tokens, second; restoration substitutes the tokens
  in the order of their creation, so the two inner tokens stay in the output, and the
  validator reports a link count mismatch and two unrestored placeholders.
\<close>

theorem validate_warns_on_link_in_code_span:
  "translate_markdown_file (ustr ''`[a](b)`'') identity_backend
     = Inr (BACKTICK # make_placeholder 0 @ ustr ''a'' @ make_placeholder 1 @ [BACKTICK]) \<and>
   validate_translation (ustr ''`[a](b)`'')
     (BACKTICK # make_placeholder 0 @ ustr ''a'' @ make_placeholder 1 @ [BACKTICK])
     = [LinkCount 1 0, Unrestored 2]"
  by (simp add: str_eval re_eval classify_eval protect_eval pipeline_eval)

section \<open>The line classifier\<close>

lemma is_space_not_pipe: "is_space c \<Longrightarrow> c \<noteq> 124"
  by (auto simp: is_space_def)

lemma lstrip_hd: "lstrip s \<noteq> [] \<Longrightarrow> \<not> is_space (hd (lstrip s))"
  unfolding lstrip_def by (metis hd_dropWhile)

lemma rstrip_last: "rstrip s \<noteq> [] \<Longrightarrow> \<not> is_space (last (rstrip s))"
  unfolding rstrip_def by (metis hd_dropWhile last_rev rev_is_Nil_conv)

lemma strip_last: "strip s \<noteq> [] \<Longrightarrow> \<not> is_space (last (strip s))"
  unfolding strip_def by (rule rstrip_last)

lemma sep_body_iff:
  "sep_body r \<longleftrightarrow> 2 \<le> length r \<and> last r = 124 \<and> list_all table_sep_char r"
proof (cases "r = []")
  case True then show ?thesis by (simp add: sep_body_def)
next
  case False
  have "list_all table_sep_char (butlast r @ [last r]) \<longleftrightarrow>
          list_all table_sep_char (butlast r) \<and> table_sep_char (last r)"
    by simp
  with False have "list_all table_sep_char r \<longleftrightarrow> list_all table_sep_char (butlast r) \<and> table_sep_char (last r)"
    by simp
  then show ?thesis by (auto simp: sep_body_def table_sep_char_def)
qed

lemma re_table_sep_strip: "re_table_sep (strip line) = ref_table_sep line"
proof (cases "strip line")
  case Nil
  then show ?thesis by (simp add: re_table_sep_def ref_table_sep_def)
next
  case (Cons c r)
  have nl: "r \<noteq> [] \<Longrightarrow> last r \<noteq> 10"
    using strip_last[of line] Cons by (auto simp: is_space_def)
  show ?thesis
    using nl by (auto simp: re_table_sep_def ref_table_sep_def Cons sep_body_iff table_sep_char_def)
qed

lemma is_ascii_art_line_ref: "is_ascii_art_line line \<longleftrightarrow> strip line \<noteq> [] \<and> ref_ascii_art line"
  by (auto simp: is_ascii_art_line_def ref_ascii_art_def re_ascii_art_def lstrip_def Let_def)

lemma classify_step:
  "classify_lines b (line # rest) =
     (if is_fence_line line then Code # classify_lines (\<not> b) rest
      else if b then Code # classify_lines b rest
      else ref_outside line # classify_lines b rest)"
  by (auto simp: Let_def is_fence_line_def ref_outside_def re_table_sep_strip is_ascii_art_line_ref)

lemma classify_lines_general:
  "classify_lines b lines =
     map (\<lambda>i. if is_fence_line (lines ! i) \<or> (b \<noteq> odd (length (filter is_fence_line (take i lines))))
               then Code else ref_outside (lines ! i)) [0..<length lines]"
proof (induction lines arbitrary: b)
  case Nil
  then show ?case by simp
next
  case (Cons line rest)
  show ?case
    unfolding classify_step Cons.IH
    by (auto simp: map_upt_Suc simp del: upt_Suc classify_lines.simps)
qed

lemma classify_open_fence:
  "list_all (\<lambda>l. \<not> is_fence_line l) rest \<Longrightarrow> classify_lines True rest = replicate (length rest) Code"
  by (induction rest) (auto simp: classify_step simp del: classify_lines.simps(2))

lemma classify_closed:
  "list_all (\<lambda>l. \<not> is_fence_line l) rest \<Longrightarrow> classify_lines False rest = map ref_outside rest"
  by (induction rest) (auto simp: classify_step simp del: classify_lines.simps(2))

lemma classify_append:
  "classify_lines b (pre @ rest) =
     classify_lines b pre @ classify_lines (b \<noteq> odd (length (filter is_fence_line pre))) rest"
  by (induction pre arbitrary: b) (auto simp: classify_step simp del: classify_lines.simps(2))

text \<open>
  C8, as amended. The classification of the code is the reference classification
  \<open>ref_class\<close>: line \<open>i\<close> is Code when it is a fence or when the number of fences
  before it is odd, and otherwise PassThrough when it is blank, a table separator
  (pipe, one or more of pipes, dashes, colons, whitespace, pipe) or ASCII art (three
  glyphs at the start of the left-trimmed line, or more than 40% of the trimmed
  line in the glyph set without hyphen and asterisk), and Translatable otherwise.
  After a prefix with an odd number of fences, lines that hold no further fence
  are all Code: an unterminated fence is never closed.
\<close>

theorem classify_lines_ref:
  "classify_lines False lines = map (ref_class lines) [0..<length lines] \<and>
   (list_all (\<lambda>l. \<not> is_fence_line l) rest \<longrightarrow>
      classify_lines False (pre @ rest) =
        classify_lines False pre @
        (if odd (length (filter is_fence_line pre)) then replicate (length rest) Code
         else map ref_outside rest))"
proof (intro conjI impI)
  show "classify_lines False lines = map (ref_class lines) [0..<length lines]"
    by (simp add: classify_lines_general ref_class_def)
next
  assume "list_all (\<lambda>l. \<not> is_fence_line l) rest"
  then show "classify_lines False (pre @ rest) =
        classify_lines False pre @
        (if odd (length (filter is_fence_line pre)) then replicate (length rest) Code
         else map ref_outside rest)"
    by (simp add: classify_append classify_open_fence classify_closed)
qed

theorem classify_lines_ref_witness:
  "classify_lines False [ustr ''```'', ustr ''x''] =
     map (ref_class [ustr ''```'', ustr ''x'']) [0..<length [ustr ''```'', ustr ''x'']] \<and>
   list_all (\<lambda>l. \<not> is_fence_line l) [ustr ''x''] \<and>
   classify_lines False ([ustr ''```''] @ [ustr ''x'']) =
     classify_lines False [ustr ''```''] @ replicate (length [ustr ''x'']) Code"
proof -
  have nf: "list_all (\<lambda>l. \<not> is_fence_line l) [ustr ''x'']"
    by (simp add: is_fence_line_def str_eval)
  have o: "odd (length (filter is_fence_line [ustr ''```'']))"
    by (simp add: is_fence_line_def str_eval)
  note t = classify_lines_ref[of "[ustr ''```'', ustr ''x'']" "[ustr ''x'']" "[ustr ''```'']"]
  have a: "classify_lines False [ustr ''```'', ustr ''x''] =
     map (ref_class [ustr ''```'', ustr ''x'']) [0..<length [ustr ''```'', ustr ''x'']]"
    using t by blast
  have "classify_lines False ([ustr ''```''] @ [ustr ''x'']) =
        classify_lines False [ustr ''```''] @
        (if odd (length (filter is_fence_line [ustr ''```''])) then replicate (length [ustr ''x'']) Code
         else map ref_outside [ustr ''x''])"
    using t nf by blast
  with o have b: "classify_lines False ([ustr ''```''] @ [ustr ''x'']) =
     classify_lines False [ustr ''```''] @ replicate (length [ustr ''x'']) Code"
    by (simp only: if_True not_False_eq_True)
  show ?thesis using a nf b by blast
qed

text \<open>
  C8, as stated: the 40% test is said to use the same glyph set as the three-glyph
  test. On the bullet line \<open>- **a**\<close> five characters of seven are in that set, so
  the specification's classifier says PassThrough; the code counts against a set
  without \<open>-\<close> and \<open>*\<close> and says Translatable.
\<close>

theorem classify_differs_from_spec:
  "classify_lines False [ustr ''- **a**''] = [Translatable] \<and>
   classify_spec False [ustr ''- **a**''] = [PassThrough]"
  by (simp add: str_eval classify_eval is_fence_line_def spec_outside_def spec_table_sep_def spec_ascii_art_def)

section \<open>The emphasis post-pass\<close>

subsection \<open>Substitution with a stateless replacement\<close>

lemma re_sub_pure_Nil [simp]: "re_sub_pure m f [] = []"
  by (simp add: re_sub_pure_def)

lemma re_sub_pure_None:
  "m (c # cs) = None \<Longrightarrow> re_sub_pure m f (c # cs) = c # re_sub_pure m f cs"
  by (simp add: re_sub_pure_def split: prod.splits)

lemma re_sub_pure_Some:
  "m (c # cs) = Some (g, rest) \<Longrightarrow> length rest \<le> length cs \<Longrightarrow>
   re_sub_pure m f (c # cs) = f g @ re_sub_pure m f rest"
  by (simp add: re_sub_pure_def split: prod.splits)

subsection \<open>Bold spans\<close>

lemma bold_close_Some:
  "bold_close r = Some (c, rest) \<Longrightarrow> r = c @ [42, 42] @ rest \<and> 10 \<notin> set c"
proof (induction r arbitrary: c rest rule: bold_close.induct)
  case (1 a b r)
  then show ?case by (auto split: if_splits option.splits)
qed simp_all

lemma match_bold_Some:
  "match_bold s = Some (c, rest) \<Longrightarrow> s = [42, 42] @ c @ [42, 42] @ rest \<and> 10 \<notin> set c \<and> c \<noteq> []"
  by (auto simp: match_bold_def split: list.splits if_splits option.splits dest: bold_close_Some)

lemma fix_bold_line_match:
  assumes "match_bold s = Some (c, rest)"
  shows "fix_bold_line s = fix_bold_span c @ fix_bold_line rest"
proof -
  from match_bold_Some[OF assms] obtain s' where s: "s = 42 # s'" and len: "length rest \<le> length s'"
    by auto
  show ?thesis
    unfolding fix_bold_line_def using assms len unfolding s by (rule re_sub_pure_Some)
qed

lemma bold_close_char:
  "a \<noteq> 42 \<Longrightarrow> a \<noteq> 10 \<Longrightarrow>
   bold_close (a # s) = (case bold_close s of None \<Rightarrow> None | Some (c, r') \<Rightarrow> Some (a # c, r'))"
  by (cases s) auto

lemma bold_close_skip:
  "(\<And>a. a \<in> set u \<Longrightarrow> a \<noteq> 42 \<and> a \<noteq> 10) \<Longrightarrow>
   bold_close (u @ s) = (case bold_close s of None \<Rightarrow> None | Some (c, r') \<Rightarrow> Some (u @ c, r'))"
proof (induction u)
  case Nil
  then show ?case by (simp split: option.splits)
next
  case (Cons a u)
  have "bold_close (a # (u @ s)) =
        (case bold_close (u @ s) of None \<Rightarrow> None | Some (c, r') \<Rightarrow> Some (a # c, r'))"
    using Cons.prems by (intro bold_close_char) auto
  then show ?case using Cons by (auto split: option.splits)
qed

lemma match_bold_no_star: "x \<noteq> 42 \<Longrightarrow> match_bold (x # xs) = None"
  by (simp add: match_bold_def split: list.splits)

lemma fix_bold_line_None:
  "match_bold (x # xs) = None \<Longrightarrow> fix_bold_line (x # xs) = x # fix_bold_line xs"
  unfolding fix_bold_line_def by (rule re_sub_pure_None)

lemma fix_bold_line_skip: "42 \<notin> set a \<Longrightarrow> fix_bold_line (a @ s) = a @ fix_bold_line s"
proof (induction a)
  case Nil
  then show ?case by simp
next
  case (Cons x a)
  then have "match_bold (x # (a @ s)) = None" by (intro match_bold_no_star) simp
  then have "fix_bold_line (x # (a @ s)) = x # fix_bold_line (a @ s)" by (rule fix_bold_line_None)
  then show ?case using Cons by simp
qed

lemma fix_bold_line_Nil: "fix_bold_line [] = []"
  by (simp add: fix_bold_line_def)

lemma match_bold_span:
  assumes "d \<noteq> []" "42 \<notin> set d" "10 \<notin> set d"
  shows "match_bold ([42, 42] @ d @ [42, 42] @ b) = Some (d, b)"
proof -
  obtain x xs where d: "d = x # xs" using assms(1) by (cases d) auto
  have "bold_close (xs @ ([42, 42] @ b)) =
        (case bold_close ([42, 42] @ b) of None \<Rightarrow> None | Some (c, r') \<Rightarrow> Some (xs @ c, r'))"
    using assms(2,3) unfolding d by (intro bold_close_skip) auto
  then have "bold_close (xs @ 42 # 42 # b) = Some (xs, b)" by simp
  then show ?thesis using assms(3) unfolding d by (simp add: match_bold_def)
qed

lemma fix_bold_line_span:
  assumes "42 \<notin> set a" "d \<noteq> []" "42 \<notin> set d" "10 \<notin> set d"
  shows "fix_bold_line (a @ [42, 42] @ d @ [42, 42] @ b) = a @ fix_bold_span d @ fix_bold_line b"
proof -
  have "fix_bold_line ([42, 42] @ d @ [42, 42] @ b) = fix_bold_span d @ fix_bold_line b"
    using match_bold_span[OF assms(2,3,4)] by (rule fix_bold_line_match)
  then show ?thesis using fix_bold_line_skip[OF assms(1)] by simp
qed

lemma dropWhile_eq_self: "xs \<noteq> [] \<Longrightarrow> \<not> P (hd xs) \<Longrightarrow> dropWhile P xs = xs"
  by (cases xs) auto

lemma last_dropWhile: "dropWhile P xs \<noteq> [] \<Longrightarrow> last (dropWhile P xs) = last xs"
  by (induction xs) (auto split: if_splits)

lemma dropWhile_nonempty: "\<not> list_all P c \<Longrightarrow> dropWhile P c \<noteq> []"
  by (simp add: dropWhile_eq_Nil_conv list_all_iff)

lemma rdrop_keeps_hd:
  assumes "xs \<noteq> []" "\<not> P (hd xs)"
  shows "rev (dropWhile P (rev xs)) \<noteq> [] \<and> hd (rev (dropWhile P (rev xs))) = hd xs"
proof -
  obtain x xs' where xs: "xs = x # xs'" using assms(1) by (cases xs) auto
  have "dropWhile P (rev xs' @ [x]) = dropWhile P (rev xs') @ [x]"
    using assms(2) xs by (simp add: dropWhile_append)
  then show ?thesis by (simp add: xs)
qed

lemma strip_sp_tab_nonempty: "\<not> list_all sp_tab c \<Longrightarrow> strip_sp_tab c \<noteq> []"
proof -
  assume a: "\<not> list_all sp_tab c"
  have d: "dropWhile sp_tab c \<noteq> []" using a by (rule dropWhile_nonempty)
  from rdrop_keeps_hd[of "dropWhile sp_tab c" sp_tab, OF d hd_dropWhile[OF d]] show ?thesis by (simp add: strip_sp_tab_def)
qed

lemma strip_sp_tab_hd: "strip_sp_tab c \<noteq> [] \<Longrightarrow> \<not> sp_tab (hd (strip_sp_tab c))"
proof -
  assume ne: "strip_sp_tab c \<noteq> []"
  let ?d = "dropWhile sp_tab c"
  have d: "?d \<noteq> []" using ne by (cases "?d = []") (simp_all add: strip_sp_tab_def)
  then have h: "\<not> sp_tab (hd ?d)" by (rule hd_dropWhile)
  from rdrop_keeps_hd[of "dropWhile sp_tab c" sp_tab, OF d h] show ?thesis using h by (simp add: strip_sp_tab_def)
qed

lemma strip_sp_tab_last: "strip_sp_tab c \<noteq> [] \<Longrightarrow> \<not> sp_tab (last (strip_sp_tab c))"
  unfolding strip_sp_tab_def by (metis hd_dropWhile last_rev rev_is_Nil_conv)

lemma fix_bold_span_eq:
  assumes "\<not> list_all sp_tab c"
  shows "fix_bold_span c =
           (if sp_tab (hd c) then [hd c] else []) @ [42, 42] @ strip_sp_tab c @ [42, 42] @
           (if sp_tab (last c) then [last c] else [])"
proof -
  from assms have cne: "c \<noteq> []" by auto
  let ?d = "dropWhile sp_tab c"
  have dne: "?d \<noteq> []" using assms by (rule dropWhile_nonempty)
  have s1: "(if c \<noteq> [] \<and> sp_tab (hd c) then ([hd c], ?d) else ([], c)) =
            ((if sp_tab (hd c) then [hd c] else []), ?d)"
    using cne by (simp add: dropWhile_eq_self)
  have ld: "last ?d = last c" using dne by (rule last_dropWhile)
  have rd: "\<not> sp_tab (last ?d) \<Longrightarrow> rev (dropWhile sp_tab (rev ?d)) = ?d"
  proof -
    assume "\<not> sp_tab (last ?d)"
    then have "dropWhile sp_tab (rev ?d) = rev ?d"
      using dne by (intro dropWhile_eq_self) (auto simp: hd_rev)
    then show ?thesis by simp
  qed
  have s2: "(if ?d \<noteq> [] \<and> sp_tab (last ?d) then ([last ?d], rev (dropWhile sp_tab (rev ?d)))
             else ([], ?d)) =
            ((if sp_tab (last c) then [last c] else []), strip_sp_tab c)"
    using dne ld rd by (simp add: strip_sp_tab_def)
  have ne: "strip_sp_tab c \<noteq> []" using assms by (rule strip_sp_tab_nonempty)
  show ?thesis
    unfolding fix_bold_span_def s1 prod.case s2 using ne by simp
qed

subsection \<open>Lines\<close>

lemma split_on_not_Nil [simp]: "split_on d s \<noteq> []"
  by (induction s) (auto split: list.splits)

lemma split_on_no_sep: "l \<in> set (split_on d s) \<Longrightarrow> d \<notin> set l"
  by (induction s arbitrary: l) (auto split: if_splits list.splits)

lemma join_split_on: "join [d] (split_on d s) = s"
proof (induction s)
  case Nil then show ?case by simp
next
  case (Cons c cs)
  show ?case
  proof (cases "c = d")
    case True
    then show ?thesis using Cons by (cases "split_on d cs") auto
  next
    case False
    then show ?thesis using Cons
      by (cases "split_on d cs"; cases "tl (split_on d cs)") auto
  qed
qed

lemma split_on_no_sep_id: "d \<notin> set l \<Longrightarrow> split_on d l = [l]"
  by (induction l) auto

lemma split_on_append_sep:
  "d \<notin> set l \<Longrightarrow> split_on d (l @ d # r) = l # split_on d r"
  by (induction l) auto

lemma split_on_join:
  "ls \<noteq> [] \<Longrightarrow> (\<And>l. l \<in> set ls \<Longrightarrow> d \<notin> set l) \<Longrightarrow> split_on d (join [d] ls) = ls"
proof (induction ls)
  case Nil
  then show ?case by simp
next
  case (Cons x xs)
  show ?case
  proof (cases xs)
    case Nil
    then show ?thesis using Cons.prems by (simp add: split_on_no_sep_id)
  next
    case (Cons y ys)
    have "split_on d (join [d] xs) = xs" using Cons.IH Cons.prems Cons by simp
    moreover have "d \<notin> set x" using Cons.prems by simp
    ultimately show ?thesis using Cons by (simp add: split_on_append_sep)
  qed
qed

lemma fix_bold_span_subset: "set (fix_bold_span c) \<subseteq> set c \<union> {42}"
proof -
  have 1: "set (dropWhile sp_tab c) \<subseteq> set c" by (auto dest: set_dropWhileD)
  have 2: "\<And>ys. set (rev (dropWhile sp_tab (rev ys))) \<subseteq> set ys"
    by (auto dest: set_dropWhileD)
  have 3: "c \<noteq> [] \<Longrightarrow> hd c \<in> set c" by simp
  have 4: "\<And>ys. ys \<noteq> [] \<Longrightarrow> ys = dropWhile sp_tab c \<Longrightarrow> last ys \<in> set c"
    using 1 last_in_set by blast
  show ?thesis
    unfolding fix_bold_span_def
    using 1 2[of c] 2[of "dropWhile sp_tab c"] 3 4
    by (auto split: if_splits)
qed

lemma fix_bold_span_no_nl: "10 \<notin> set c \<Longrightarrow> 10 \<notin> set (fix_bold_span c)"
  using fix_bold_span_subset[of c] by auto

lemma fix_bold_line_no_nl: "10 \<notin> set l \<Longrightarrow> 10 \<notin> set (fix_bold_line l)"
proof (induction l rule: length_induct)
  case (1 l)
  show ?case
  proof (cases l)
    case Nil then show ?thesis by (simp add: fix_bold_line_def)
  next
    case (Cons x xs)
    show ?thesis
    proof (cases "match_bold l")
      case None
      then have "fix_bold_line l = x # fix_bold_line xs"
        unfolding fix_bold_line_def Cons by (rule re_sub_pure_None)
      moreover have "10 \<notin> set (fix_bold_line xs)" using 1 Cons by auto
      ultimately show ?thesis using 1(2) Cons by auto
    next
      case (Some a)
      obtain c rest where a: "a = (c, rest)" by (cases a)
      from match_bold_Some[OF Some[unfolded a]]
      have l: "l = [42, 42] @ c @ [42, 42] @ rest" and c: "10 \<notin> set c" by auto
      have "10 \<notin> set (fix_bold_line rest)" using 1 l by auto
      then show ?thesis
        using fix_bold_line_match[OF Some[unfolded a]] fix_bold_span_no_nl[OF c] by simp
    qed
  qed
qed

lemma fix_lines_structure:
  "split_on 10 (join [10] (map fix_bold_line (split_on 10 t))) = map fix_bold_line (split_on 10 t)"
proof (rule split_on_join)
  show "map fix_bold_line (split_on 10 t) \<noteq> []" by simp
next
  fix l assume "l \<in> set (map fix_bold_line (split_on 10 t))"
  then obtain l' where "l' \<in> set (split_on 10 t)" and l: "l = fix_bold_line l'" by auto
  then have "10 \<notin> set l'" by (auto dest: split_on_no_sep)
  then show "10 \<notin> set l" unfolding l by (rule fix_bold_line_no_nl)
qed

text \<open>
  C7, as amended. The post-pass scans a line from left to right: where the pattern
  of a bold span matches, the span is replaced and the scan goes on after it; any
  other character is copied as it is. So every span that is matched on the line is
  rewritten, wherever it stands, and a line without an asterisk is unchanged. A
  match is two asterisks, a content that is not empty and holds no newline, and
  two asterisks. For a matched span whose content is not only spaces and tabs,
  the leading and trailing spaces and tabs are removed from inside the markers
  and one character is put outside on each side that had any: the first character
  of the content before the opening marker, the last one after the closing marker.
  What stays inside neither starts nor ends with a space or tab. The pass maps
  the lines of its input one to one: line \<open>i\<close> of the result is the fixed line \<open>i\<close>.
  The literal \<open>** hello**\<close> becomes \<open> **hello**\<close>, and a translation
  \<open>a ** b** and **c **\<close> is written out as \<open>a  **b** and **c** \<close>.
\<close>

theorem bold_span_post_pass:
  "(\<not> list_all sp_tab c \<longrightarrow>
      fix_bold_span c =
        (if sp_tab (hd c) then [hd c] else []) @ [STAR, STAR] @ strip_sp_tab c @ [STAR, STAR] @
        (if sp_tab (last c) then [last c] else []) \<and>
      strip_sp_tab c \<noteq> [] \<and> \<not> sp_tab (hd (strip_sp_tab c)) \<and> \<not> sp_tab (last (strip_sp_tab c))) \<and>
   (match_bold s = Some (c', rest) \<longrightarrow>
      s = [STAR, STAR] @ c' @ [STAR, STAR] @ rest \<and> c' \<noteq> [] \<and> NL \<notin> set c' \<and>
      fix_bold_line s = fix_bold_span c' @ fix_bold_line rest) \<and>
   (match_bold (x # xs) = None \<longrightarrow> fix_bold_line (x # xs) = x # fix_bold_line xs) \<and>
   fix_bold_line [] = [] \<and>
   (STAR \<notin> set a \<and> d \<noteq> [] \<and> STAR \<notin> set d \<and> NL \<notin> set d \<longrightarrow>
      match_bold ([STAR, STAR] @ d @ [STAR, STAR] @ b) = Some (d, b) \<and>
      fix_bold_line (a @ [STAR, STAR] @ d @ [STAR, STAR] @ b) = a @ fix_bold_span d @ fix_bold_line b) \<and>
   (STAR \<notin> set a \<longrightarrow> fix_bold_line a = a) \<and>
   split_on NL (join [NL] (map fix_bold_line (split_on NL t))) = map fix_bold_line (split_on NL t) \<and>
   fix_bold_line (ustr ''** hello**'') = ustr '' **hello**'' \<and>
   translate_markdown_file (ustr ''x'') (\<lambda>texts. Inr [ustr ''a ** b** and **c **'']) =
     Inr (ustr ''a  **b** and **c** '')"
proof (intro conjI impI)
  show "fix_bold_line (ustr ''** hello**'') = ustr '' **hello**''"
    by (simp add: str_eval re_eval pipeline_eval)
next
  show "translate_markdown_file (ustr ''x'') (\<lambda>texts. Inr [ustr ''a ** b** and **c **'']) =
     Inr (ustr ''a  **b** and **c** '')"
    by (simp add: str_eval re_eval classify_eval protect_eval pipeline_eval)
next
  assume a: "\<not> list_all sp_tab c"
  show "fix_bold_span c =
        (if sp_tab (hd c) then [hd c] else []) @ [STAR, STAR] @ strip_sp_tab c @ [STAR, STAR] @
        (if sp_tab (last c) then [last c] else [])"
    using a by (rule fix_bold_span_eq)
  show n: "strip_sp_tab c \<noteq> []" using a by (rule strip_sp_tab_nonempty)
  show "\<not> sp_tab (hd (strip_sp_tab c))" using n by (rule strip_sp_tab_hd)
  show "\<not> sp_tab (last (strip_sp_tab c))" using n by (rule strip_sp_tab_last)
next
  assume m: "match_bold s = Some (c', rest)"
  show "s = [STAR, STAR] @ c' @ [STAR, STAR] @ rest" using match_bold_Some[OF m] by simp
  show "c' \<noteq> []" using match_bold_Some[OF m] by simp
  show "NL \<notin> set c'" using match_bold_Some[OF m] by simp
  show "fix_bold_line s = fix_bold_span c' @ fix_bold_line rest" using m by (rule fix_bold_line_match)
next
  assume "match_bold (x # xs) = None"
  then show "fix_bold_line (x # xs) = x # fix_bold_line xs" by (rule fix_bold_line_None)
next
  show "fix_bold_line [] = []" by (rule fix_bold_line_Nil)
next
  assume h: "STAR \<notin> set a \<and> d \<noteq> [] \<and> STAR \<notin> set d \<and> NL \<notin> set d"
  show "match_bold ([STAR, STAR] @ d @ [STAR, STAR] @ b) = Some (d, b)"
    using h by (intro match_bold_span) simp_all
  show "fix_bold_line (a @ [STAR, STAR] @ d @ [STAR, STAR] @ b) = a @ fix_bold_span d @ fix_bold_line b"
    using h by (intro fix_bold_line_span) simp_all
next
  assume "STAR \<notin> set a"
  then show "fix_bold_line a = a" using fix_bold_line_skip[of a "[]"] by (simp add: fix_bold_line_Nil)
next
  show "split_on NL (join [NL] (map fix_bold_line (split_on NL t))) = map fix_bold_line (split_on NL t)"
    by (rule fix_lines_structure)
qed

theorem bold_span_post_pass_witness:
  "\<not> list_all sp_tab (ustr '' hello'') \<and>
   fix_bold_span (ustr '' hello'') = ustr '' **hello**'' \<and>
   match_bold (ustr ''** hello**'') = Some (ustr '' hello'', []) \<and>
   fix_bold_line (ustr ''** hello**'') = fix_bold_span (ustr '' hello'') @ fix_bold_line [] \<and>
   match_bold (ustr ''a ** b**'') = None \<and>
   fix_bold_line (ustr ''a ** b**'') = 97 # fix_bold_line (ustr '' ** b**'') \<and>
   (STAR \<notin> set (ustr ''a '') \<and> ustr '' b'' \<noteq> [] \<and> STAR \<notin> set (ustr '' b'') \<and> NL \<notin> set (ustr '' b'')) \<and>
   fix_bold_line (ustr ''a '' @ [STAR, STAR] @ ustr '' b'' @ [STAR, STAR] @ ustr '' c'') =
     ustr ''a '' @ fix_bold_span (ustr '' b'') @ fix_bold_line (ustr '' c'') \<and>
   fix_bold_line (ustr ''a '') = ustr ''a ''"
proof -
  note t = bold_span_post_pass[of "ustr '' hello''" "ustr ''** hello**''" "ustr '' hello''" "[]"
      97 "ustr '' ** b**''" "ustr ''a ''" "ustr '' b''" "ustr '' c''" "[]"]
  have h1: "\<not> list_all sp_tab (ustr '' hello'')"
    by (simp add: sp_tab_def ustr_def)
  have h2: "match_bold (ustr ''** hello**'') = Some (ustr '' hello'', [])"
    by (simp add: match_bold_def ustr_def)
  have h3: "match_bold (97 # ustr '' ** b**'') = None"
    by (simp add: match_bold_def ustr_def)
  have h3': "ustr ''a ** b**'' = 97 # ustr '' ** b**''" by (simp add: ustr_def)
  have h4: "STAR \<notin> set (ustr ''a '') \<and> ustr '' b'' \<noteq> [] \<and> STAR \<notin> set (ustr '' b'') \<and> NL \<notin> set (ustr '' b'')"
    by (simp add: ustr_def)
  have h5: "STAR \<notin> set (ustr ''a '')" by (simp add: ustr_def)
  have e: "strip_sp_tab (ustr '' hello'') = ustr ''hello''"
    by (simp add: strip_sp_tab_def sp_tab_def ustr_def)
  have a: "fix_bold_span (ustr '' hello'') =
        (if sp_tab (hd (ustr '' hello'')) then [hd (ustr '' hello'')] else []) @ [STAR, STAR] @
        strip_sp_tab (ustr '' hello'') @ [STAR, STAR] @
        (if sp_tab (last (ustr '' hello'')) then [last (ustr '' hello'')] else [])"
    using t h1 by blast
  have a': "fix_bold_span (ustr '' hello'') = ustr '' **hello**''"
    unfolding a e by (simp add: sp_tab_def ustr_def)
  have b: "fix_bold_line (ustr ''** hello**'') = fix_bold_span (ustr '' hello'') @ fix_bold_line []"
    using t h2 by blast
  have c: "fix_bold_line (97 # ustr '' ** b**'') = 97 # fix_bold_line (ustr '' ** b**'')"
    using t h3 by blast
  have d: "fix_bold_line (ustr ''a '' @ [STAR, STAR] @ ustr '' b'' @ [STAR, STAR] @ ustr '' c'') =
     ustr ''a '' @ fix_bold_span (ustr '' b'') @ fix_bold_line (ustr '' c'')"
    using t h4 by blast
  have f: "fix_bold_line (ustr ''a '') = ustr ''a ''"
    using t h5 by blast
  show ?thesis using h1 a' h2 b h3 c d f h4 unfolding h3' by blast
qed

text \<open>
  C7, as stated: all the inner leading whitespace is moved outside. With two spaces
  after the opening marker the code puts one space outside and drops the other.
\<close>

theorem bold_span_keeps_one_space:
  "fix_bold_span (ustr ''  hello'') = ustr '' **hello**'' \<and>
   moved_outside (ustr ''  hello'') = ustr ''  **hello**'' \<and>
   fix_bold_line (ustr ''**  hello**'') = ustr '' **hello**''"
  by (simp add: str_eval re_eval pipeline_eval moved_outside_def strip_sp_tab_def)

section \<open>Prefixes and segments\<close>

lemma take_drop_While: "takeWhile P s @ dropWhile P s = s"
  by simp

lemma match_heading_split: "match_heading s = Some (g, rest) \<Longrightarrow> g @ rest = s"
  by (auto simp: match_heading_def Let_def split: if_splits)

lemma match_blockquote_split: "match_blockquote s = Some (g, rest) \<Longrightarrow> g @ rest = s"
proof -
  assume a: "match_blockquote s = Some (g, rest)"
  then obtain r where d: "dropWhile is_space s = 62 # r"
    and g: "g = takeWhile is_space s @ [62] @ takeWhile is_space r"
    and rest: "rest = dropWhile is_space r"
    by (auto simp: match_blockquote_def Let_def split: list.splits if_splits)
  have "s = takeWhile is_space s @ dropWhile is_space s" by simp
  then have "s = takeWhile is_space s @ 62 # (takeWhile is_space r @ dropWhile is_space r)"
    unfolding d by simp
  then show ?thesis unfolding g rest by simp
qed

lemma match_list_marker_split: "match_list_marker s = Some (g, rest) \<Longrightarrow> g @ rest = s"
proof -
  assume a: "match_list_marker s = Some (g, rest)"
  have s: "s = takeWhile is_space s @ dropWhile is_space s" by simp
  from a obtain c r where d: "dropWhile is_space s = c # r"
    by (auto simp: match_list_marker_def Let_def split: list.splits)
  show ?thesis
  proof (cases "c = 45 \<or> c = 42 \<or> c = 43")
    case True
    with a d have g: "g = takeWhile is_space s @ [c] @ takeWhile is_space r"
      and rest: "rest = dropWhile is_space r"
      by (auto simp: match_list_marker_def Let_def split: if_splits)
    have "s = takeWhile is_space s @ c # (takeWhile is_space r @ dropWhile is_space r)"
      using s unfolding d by simp
    then show ?thesis unfolding g rest by simp
  next
    case False
    define ds where "ds = takeWhile is_digit (c # r)"
    from False a d obtain r' where
      dd: "dropWhile is_digit (c # r) = 46 # r'"
      and g: "g = takeWhile is_space s @ ds @ [46] @ takeWhile is_space r'"
      and rest: "rest = dropWhile is_space r'"
      unfolding ds_def
      by (auto simp: match_list_marker_def Let_def split: if_splits list.splits)
    have "ds @ dropWhile is_digit (c # r) = c # r" unfolding ds_def by (rule takeWhile_dropWhile_id)
    then have e: "ds @ 46 # r' = c # r" unfolding dd .
    have "g @ rest = takeWhile is_space s @ (ds @ 46 # (takeWhile is_space r' @ dropWhile is_space r'))"
      unfolding g rest by simp
    also have "\<dots> = takeWhile is_space s @ (ds @ 46 # r')" by simp
    also have "\<dots> = takeWhile is_space s @ dropWhile is_space s" unfolding e d ..
    finally show ?thesis by simp
  qed
qed

lemma strip_prefixes_split: "strip_prefixes line = (pre, text) \<Longrightarrow> pre @ text = line"
  by (auto simp: strip_prefixes_def split: option.splits prod.splits
      dest!: match_heading_split match_blockquote_split match_list_marker_split)

lemma protect_Nil: "protect_inline_elements [] = ([], [])"
  by (simp add: protect_inline_elements_def)

lemma make_cell_eq:
  "make_cell r = \<lparr>cell_text = fst (protect_inline_elements (strip r)),
                  cell_placeholders = snd (protect_inline_elements (strip r)),
                  cell_translated = None\<rparr>"
  by (simp add: make_cell_def Let_def protect_Nil split: prod.splits)

section \<open>Table rows\<close>

lemma re_sub_nonempty:
  assumes "\<And>st g. fst (f st g) \<noteq> []"
  shows "fst (re_sub m f st s) = [] \<longleftrightarrow> s = []"
proof (cases s)
  case Nil then show ?thesis by simp
next
  case (Cons c cs)
  show ?thesis
    using assms unfolding Cons
    by (auto split: option.splits prod.splits if_splits)
       (metis fst_conv)
qed

lemma make_placeholder_nonempty [simp]: "make_placeholder n \<noteq> []"
  by (simp add: make_placeholder_def)

lemma protect_empty_iff: "fst (protect_inline_elements t) = [] \<longleftrightarrow> t = []"
proof -
  have 1: "\<And>st g. fst (replace_bold_link st g) \<noteq> []"
    by (auto simp: replace_bold_link_def Let_def split: prod.splits)
  have 2: "\<And>st g. fst (replace_link st g) \<noteq> []"
    by (auto simp: replace_link_def Let_def split: prod.splits)
  have 3: "\<And>st g. fst (replace_inline_code st g) \<noteq> []"
    by (auto simp: replace_inline_code_def Let_def split: prod.splits)
  have 4: "\<And>st g. fst (replace_bold st g) \<noteq> []"
    by (auto simp: replace_bold_def Let_def split: prod.splits)
  obtain p1 st1 where r1: "re_sub match_bold_link replace_bold_link (0, []) t = (p1, st1)"
    by (cases "re_sub match_bold_link replace_bold_link (0, []) t")
  obtain p2 st2 where r2: "re_sub match_link replace_link st1 p1 = (p2, st2)"
    by (cases "re_sub match_link replace_link st1 p1")
  obtain p3 st3 where r3: "re_sub match_inline_code replace_inline_code st2 p2 = (p3, st3)"
    by (cases "re_sub match_inline_code replace_inline_code st2 p2")
  obtain p4 st4 where r4: "re_sub match_bold replace_bold st3 p3 = (p4, st4)"
    by (cases "re_sub match_bold replace_bold st3 p3")
  have "p1 = [] \<longleftrightarrow> t = []" using re_sub_nonempty[of replace_bold_link match_bold_link "(0, [])" t, OF 1] r1 by simp
  moreover have "p2 = [] \<longleftrightarrow> p1 = []" using re_sub_nonempty[of replace_link match_link st1 p1, OF 2] r2 by simp
  moreover have "p3 = [] \<longleftrightarrow> p2 = []" using re_sub_nonempty[of replace_inline_code match_inline_code st2 p2, OF 3] r3 by simp
  moreover have "p4 = [] \<longleftrightarrow> p3 = []" using re_sub_nonempty[of replace_bold match_bold st3 p3, OF 4] r4 by simp
  ultimately show ?thesis by (simp add: protect_inline_elements_def r1 r2 r3 r4)
qed

lemma rebuild_cell_make_cell:
  "rebuild_cell ((make_cell raw)\<lparr>cell_translated := tr\<rparr>) =
     (if strip raw = [] then []
      else [SPACE] @ restore_placeholders
             (case tr of Some t \<Rightarrow> t | None \<Rightarrow> fst (protect_inline_elements (strip raw)))
             (snd (protect_inline_elements (strip raw))) @ [SPACE])"
  by (cases tr) (simp_all add: rebuild_cell_def make_cell_eq protect_empty_iff)

lemma rebuild_row_pipes:
  "startswith (rebuild_row cells) [PIPE] \<and> endswith (rebuild_row cells) [PIPE]"
proof -
  define l0 where "l0 = join [PIPE] (map rebuild_cell cells)"
  define l1 where "l1 = (if \<not> startswith l0 [PIPE] then [PIPE] @ l0 else l0)"
  define l2 where "l2 = (if \<not> endswith l1 [PIPE] then l1 @ [PIPE] else l1)"
  have r: "rebuild_row cells = l2" by (simp add: rebuild_row_def l0_def l1_def l2_def Let_def)
  have s1: "startswith l1 [PIPE]" by (auto simp: l1_def startswith_def)
  then have ne: "l1 \<noteq> []" by (auto simp: startswith_def)
  have s2: "startswith l2 [PIPE]" using s1 ne by (cases l1) (auto simp: l2_def startswith_def)
  have e2: "endswith l2 [PIPE]" by (auto simp: l2_def endswith_def)
  show ?thesis using r s2 e2 by simp
qed

lemma rebuild_row_join:
  "\<exists>pre suf. rebuild_row cells = pre @ join [PIPE] (map rebuild_cell cells) @ suf \<and>
              (pre = [] \<or> pre = [PIPE]) \<and> (suf = [] \<or> suf = [PIPE])"
proof -
  define l0 where "l0 = join [PIPE] (map rebuild_cell cells)"
  define p where "p = (if \<not> startswith l0 [PIPE] then [PIPE] else [])"
  define s where "s = (if \<not> endswith (p @ l0) [PIPE] then [PIPE] else [])"
  have "rebuild_row cells = p @ l0 @ s"
    by (simp add: rebuild_row_def l0_def p_def s_def Let_def)
  moreover have "p = [] \<or> p = [PIPE]" by (simp add: p_def)
  moreover have "s = [] \<or> s = [PIPE]" by (simp add: s_def)
  ultimately show ?thesis unfolding l0_def by blast
qed

text \<open>
  C6. A cell that was not empty is written as a space, its restored text (the
  translation when one was attached, the protected text otherwise) and a space; an
  empty cell is written as the empty string. The cells are joined with single
  pipes; a pipe is added at an end that lacks one, and nothing else, so the line
  always starts and ends with a pipe. The row \<open>| a |  | b |\<close> comes out of the
  pipeline as \<open>| a || b |\<close>.
\<close>

theorem table_row_reconstruction:
  "rebuild_cell ((make_cell raw)\<lparr>cell_translated := tr\<rparr>) =
     (if strip raw = [] then []
      else [SPACE] @ restore_placeholders
             (case tr of Some t \<Rightarrow> t | None \<Rightarrow> fst (protect_inline_elements (strip raw)))
             (snd (protect_inline_elements (strip raw))) @ [SPACE]) \<and>
   reconstruct (TableRow i pre cells) = rebuild_row cells \<and>
   startswith (rebuild_row cells) [PIPE] \<and> endswith (rebuild_row cells) [PIPE] \<and>
   (\<exists>p s. rebuild_row cells = p @ join [PIPE] (map rebuild_cell cells) @ s \<and>
           (p = [] \<or> p = [PIPE]) \<and> (s = [] \<or> s = [PIPE])) \<and>
   translate_markdown_file (ustr ''| a |  | b |'') identity_backend = Inr (ustr ''| a || b |'')"
proof (intro conjI)
  show "translate_markdown_file (ustr ''| a |  | b |'') identity_backend = Inr (ustr ''| a || b |'')"
    by (simp add: str_eval re_eval classify_eval protect_eval pipeline_eval)
qed (simp_all add: rebuild_cell_make_cell rebuild_row_pipes rebuild_row_join)

section \<open>Mapping translations back\<close>

lemma rebuild_cell_fill: "rebuild_cell (fill_cell c) = rebuild_cell c"
  by (cases "cell_translated c") (simp_all add: rebuild_cell_def fill_cell_def)

lemma reconstruct_fill: "reconstruct (fill s) = reconstruct s"
  by (cases s) (simp_all add: rebuild_row_def rebuild_cell_fill comp_def split: option.splits)

lemma line_idx_fill: "line_idx (fill s) = line_idx s"
  by (cases s) simp_all

lemma reconstruct_lines_fill:
  "reconstruct_lines lines (map fill segs) = reconstruct_lines lines segs"
  unfolding reconstruct_lines_def
  by (induction segs arbitrary: lines) (simp_all add: reconstruct_fill line_idx_fill)

lemma reconstruct_lines_cong:
  "map fill S = map fill S' \<Longrightarrow> reconstruct_lines lines S = reconstruct_lines lines S'"
  by (metis reconstruct_lines_fill)

lemma fill_attach_own: "own_slot k t s \<Longrightarrow> fill (attach k t s) = fill s"
proof (induction k t s rule: own_slot.induct)
  case (1 t i pre body phs tr)
  then show ?case by auto
next
  case (2 c t i pre cells)
  then have "map fill_cell (cells[c := (cells ! c)\<lparr>cell_translated := Some t\<rparr>]) = map fill_cell cells"
    by (auto simp: map_update fill_cell_def intro!: list_update_same_conv[THEN iffD2])
  with 2 show ?case by simp
qed simp_all

lemma own_slot_attach_same:
  "own_slot k t s \<Longrightarrow> own_slot k' t' s \<Longrightarrow> own_slot k' t' (attach k t s)"
proof (induction k t s rule: own_slot.induct)
  case (1 t i pre body phs tr)
  then show ?case by (cases k') auto
next
  case (2 c t i pre cells)
  then show ?case by (cases k') (auto simp: nth_list_update)
qed simp_all

lemma own_slot_attach_other:
  "k \<noteq> k' \<Longrightarrow> own_slot k' t' s \<Longrightarrow> own_slot k' t' (attach k t s)"
proof (induction k' t' s rule: own_slot.induct)
  case (1 t' i pre body phs tr)
  then show ?case by (cases k) auto
next
  case (2 c t' i pre cells)
  then show ?case by (cases k) (auto simp: nth_list_update)
qed simp_all

lemma map_back_Nil [simp]: "map_back S [] = S"
  by (simp add: map_back_def)

lemma map_back_Cons:
  "map_back S (((j, k), t) # ps) =
     map_back (if j < length S then S[j := attach k t (S ! j)] else S) ps"
  by (simp add: map_back_def)

lemma map_back_append: "map_back S (A @ B) = map_back (map_back S A) B"
  by (simp add: map_back_def)

lemma map_back_own:
  "(\<And>e. e \<in> set B \<Longrightarrow> own_pair S e) \<Longrightarrow> map fill (map_back S B) = map fill S"
proof (induction B arbitrary: S)
  case Nil
  then show ?case by simp
next
  case (Cons e B)
  obtain j k t where e: "e = ((j, k), t)" by (cases e) auto
  have oe: "own_pair S e" using Cons.prems by simp
  then have j: "j < length S" and os: "own_slot k t (S ! j)" by (auto simp: own_pair_def e)
  let ?S = "S[j := attach k t (S ! j)]"
  have pres: "own_pair ?S e'" if "e' \<in> set B" for e'
  proof -
    obtain j' k' t' where e': "e' = ((j', k'), t')" by (cases e') auto
    have o': "own_pair S e'" using Cons.prems that by simp
    then have j': "j' < length S" and os': "own_slot k' t' (S ! j')" by (auto simp: own_pair_def e')
    show ?thesis
    proof (cases "j' = j")
      case True
      then show ?thesis using j os os' by (simp add: own_pair_def e' own_slot_attach_same)
    next
      case False
      then show ?thesis using j' os' by (simp add: own_pair_def e')
    qed
  qed
  have "map fill (map_back ?S B) = map fill ?S" using pres by (rule Cons.IH)
  also have "\<dots> = map fill S"
    using j os by (simp add: map_update fill_attach_own list_update_same_conv)
  finally show ?case using j by (simp add: e map_back_Cons)
qed

lemma map_back_keeps_own:
  "own_pair S e \<Longrightarrow> fst e \<notin> fst ` set A \<Longrightarrow> own_pair (map_back S A) e"
proof (induction A arbitrary: S)
  case Nil
  then show ?case by simp
next
  case (Cons a A)
  obtain j k t where a: "a = ((j, k), t)" by (cases a) auto
  obtain j' k' t' where e: "e = ((j', k'), t')" by (cases e) auto
  have ne: "(j, k) \<noteq> (j', k')" using Cons.prems(2) by (auto simp: a e)
  have j': "j' < length S" and os': "own_slot k' t' (S ! j')" using Cons.prems(1) by (auto simp: own_pair_def e)
  let ?S = "if j < length S then S[j := attach k t (S ! j)] else S"
  have "own_pair ?S e"
  proof (cases "j < length S \<and> j = j'")
    case True
    then have "k \<noteq> k'" using ne by simp
    then show ?thesis using True os' by (simp add: own_pair_def e own_slot_attach_other)
  next
    case False
    then show ?thesis using j' os' by (auto simp: own_pair_def e)
  qed
  moreover have "fst e \<notin> fst ` set A" using Cons.prems(2) by simp
  ultimately have "own_pair (map_back ?S A) e" by (rule Cons.IH)
  then show ?case by (simp add: a map_back_Cons)
qed

subsection \<open>The work list names distinct places that hold their own text\<close>

lemma collect_cells_mem:
  "(t, (j, k)) \<in> set (collect_cells j0 c0 cells) \<Longrightarrow>
     j = j0 \<and> (\<exists>c. k = KCell c \<and> c0 \<le> c \<and> c - c0 < length cells \<and> cell_text (cells ! (c - c0)) = t)"
proof (induction cells arbitrary: c0)
  case Nil
  then show ?case by simp
next
  case (Cons x xs)
  from Cons.prems consider "(t, (j, k)) = (cell_text x, j0, KCell c0)"
    | "(t, (j, k)) \<in> set (collect_cells j0 (Suc c0) xs)"
    by (auto split: if_splits)
  then show ?case
  proof cases
    case 1
    then show ?thesis by auto
  next
    case 2
    from Cons.IH[OF 2] obtain c where c: "k = KCell c" "Suc c0 \<le> c" "c - Suc c0 < length xs"
      "cell_text (xs ! (c - Suc c0)) = t" and j: "j = j0" by auto
    have "c - c0 = Suc (c - Suc c0)" using c(2) by simp
    then show ?thesis using c j by auto
  qed
qed

lemma collect_cells_distinct: "distinct (map snd (collect_cells j0 c0 cells))"
proof (induction cells arbitrary: c0)
  case Nil
  then show ?case by simp
next
  case (Cons x xs)
  have "(j0, KCell c0) \<notin> snd ` set (collect_cells j0 (Suc c0) xs)"
    using collect_cells_mem[of _ j0 "KCell c0" j0 "Suc c0" xs] by force
  then show ?case using Cons.IH[of "Suc c0"] by simp
qed

lemma collect_texts_mem:
  "(t, (j, k)) \<in> set (collect_texts n segs) \<Longrightarrow> list_all fresh segs \<Longrightarrow>
     n \<le> j \<and> j - n < length segs \<and> own_slot k t (segs ! (j - n))"
proof (induction n segs rule: collect_texts.induct)
  case (1 seg_idx)
  then show ?case by simp
next
  case (2 seg_idx i pre body phs tr segs)
  from "2.prems"(1) consider "(t, (j, k)) = (body, seg_idx, KText)"
    | "(t, (j, k)) \<in> set (collect_texts (Suc seg_idx) segs)" by auto
  then show ?case
  proof cases
    case 1
    then show ?thesis using "2.prems"(2) by auto
  next
    case 2
    from "2.IH"[OF 2] "2.prems"(2)
    have a: "Suc seg_idx \<le> j" "j - Suc seg_idx < length segs" "own_slot k t (segs ! (j - Suc seg_idx))"
      by auto
    have "j - seg_idx = Suc (j - Suc seg_idx)" using a(1) by simp
    then show ?thesis using a by auto
  qed
next
  case (3 seg_idx i pre cells segs)
  from "3.prems"(1) consider "(t, (j, k)) \<in> set (collect_cells seg_idx 0 cells)"
    | "(t, (j, k)) \<in> set (collect_texts (Suc seg_idx) segs)" by auto
  then show ?case
  proof cases
    case 1
    from collect_cells_mem[OF 1] obtain c where "j = seg_idx" "k = KCell c" "c < length cells"
      "cell_text (cells ! c) = t" by auto
    then show ?thesis using "3.prems"(2) by (auto simp: list_all_length)
  next
    case 2
    from "3.IH"[OF 2] "3.prems"(2)
    have a: "Suc seg_idx \<le> j" "j - Suc seg_idx < length segs" "own_slot k t (segs ! (j - Suc seg_idx))"
      by auto
    have "j - seg_idx = Suc (j - Suc seg_idx)" using a(1) by simp
    then show ?thesis using a by auto
  qed
qed

lemma collect_texts_ge:
  "(t, (j, k)) \<in> set (collect_texts n segs) \<Longrightarrow> n \<le> j"
proof (induction n segs rule: collect_texts.induct)
  case (3 seg_idx i pre cells segs)
  then show ?case using collect_cells_mem[of t j k seg_idx 0 cells] by fastforce
qed auto

lemma collect_texts_distinct: "distinct (map snd (collect_texts n segs))"
proof (induction n segs rule: collect_texts.induct)
  case (1 seg_idx)
  then show ?case by simp
next
  case (2 seg_idx i pre body phs tr segs)
  have "(seg_idx, KText) \<notin> snd ` set (collect_texts (Suc seg_idx) segs)"
    using collect_texts_ge[of _ seg_idx KText "Suc seg_idx" segs] by force
  then show ?case using 2 by simp
next
  case (3 seg_idx i pre cells segs)
  have "snd ` set (collect_cells seg_idx 0 cells) \<inter> snd ` set (collect_texts (Suc seg_idx) segs) = {}"
  proof (rule ccontr)
    assume "\<not> ?thesis"
    then obtain t j k t' where a: "(t, (j, k)) \<in> set (collect_cells seg_idx 0 cells)"
      and b: "(t', (j, k)) \<in> set (collect_texts (Suc seg_idx) segs)" by force
    from collect_cells_mem[OF a] collect_texts_ge[OF b] show False by simp
  qed
  then show ?case using 3 collect_cells_distinct[of seg_idx 0 cells] by simp
qed

lemma extract_segment_fresh: "extract_segment i line = Some seg \<Longrightarrow> fresh seg"
  by (auto simp: extract_segment_def make_cell_def Let_def list_all_iff
      split: prod.splits if_splits)

lemma extract_segments_fresh: "list_all fresh (extract_segments i ls)"
  by (induction i ls rule: extract_segments.induct)
     (auto split: option.splits dest: extract_segment_fresh)

lemma segments_of_fresh: "list_all fresh (segments_of content)"
  by (simp add: segments_of_def Let_def extract_segments_fresh)

subsection \<open>A short or long result list\<close>

lemma zip_take_right: "zip xs (take (length xs) ys) = zip xs ys"
proof (induction xs arbitrary: ys)
  case Nil
  then show ?case by simp
next
  case (Cons x xs)
  then show ?case by (cases ys) simp_all
qed

lemma zip_take_left: "zip (take (length ys) xs) ys = zip xs ys"
proof (induction ys arbitrary: xs)
  case Nil
  then show ?case by simp
next
  case (Cons y ys)
  then show ?case by (cases xs) simp_all
qed

lemma finish_aligned:
  assumes fr: "list_all fresh segs"
  shows "finish lines segs rs = finish lines segs (aligned (map fst (collect_texts 0 segs)) rs)"
proof -
  define work where "work = collect_texts 0 segs"
  define idx where "idx = map snd work"
  define texts where "texts = map fst work"
  have len: "length idx = length texts" by (simp add: idx_def texts_def)
  have "reconstruct_lines lines (map_back segs (zip idx rs)) =
        reconstruct_lines lines (map_back segs (zip idx (aligned texts rs)))"
  proof (cases "length texts \<le> length rs")
    case True
    then have "aligned texts rs = take (length idx) rs" by (simp add: aligned_def len)
    moreover have "zip idx (take (length idx) rs) = zip idx rs"
      by (rule zip_take_right)
    ultimately show ?thesis by simp
  next
    case False
    define k where "k = length rs"
    have k: "k < length idx" using False by (simp add: k_def len)
    have al: "aligned texts rs = rs @ drop k texts" using False by (simp add: aligned_def k_def)
    define A where "A = zip (take k idx) rs"
    define B where "B = zip (drop k idx) (drop k texts)"
    have zA: "zip idx rs = A"
      unfolding A_def k_def by (simp add: zip_take_left)
    have "zip (take k idx @ drop k idx) (rs @ drop k texts) = A @ B"
      unfolding A_def B_def using k by (intro zip_append) (simp add: k_def)
    then have zAB: "zip idx (aligned texts rs) = A @ B" by (simp add: al)
    have Bset: "set B \<subseteq> (\<lambda>(t, s). (s, t)) ` set work"
    proof -
      have "B = drop k (zip idx texts)" by (simp add: B_def drop_zip)
      moreover have "zip idx texts = map (\<lambda>(t, s). (s, t)) work"
        unfolding idx_def texts_def by (induction work) auto
      ultimately show ?thesis by (auto dest: in_set_dropD)
    qed
    have own0: "own_pair segs e" if "e \<in> set B" for e
    proof -
      obtain j kk t where e: "e = ((j, kk), t)" by (cases e) auto
      then have "(t, (j, kk)) \<in> set (collect_texts 0 segs)" using Bset that work_def by auto
      from collect_texts_mem[OF this fr] show ?thesis by (simp add: own_pair_def e)
    qed
    have dis: "distinct idx" unfolding idx_def work_def by (rule collect_texts_distinct)
    have disj: "fst e \<notin> fst ` set A" if "e \<in> set B" for e
    proof -
      obtain a b where ab: "e = (a, b)" by (cases e)
      have "(a, b) \<in> set (zip (drop k idx) (drop k texts))" using that unfolding B_def ab .
      then have "a \<in> set (drop k idx)" by (rule set_zip_leftD)
      then have "fst e \<in> set (drop k idx)" by (simp add: ab)
      moreover have "fst ` set A \<subseteq> set (take k idx)"
        unfolding A_def by (auto dest: set_zip_leftD)
      moreover have "set (take k idx) \<inter> set (drop k idx) = {}"
        using dis by (metis append_take_drop_id distinct_append)
      ultimately show ?thesis by auto
    qed
    have "map fill (map_back (map_back segs A) B) = map fill (map_back segs A)"
    proof (rule map_back_own)
      fix e assume "e \<in> set B"
      then show "own_pair (map_back segs A) e"
        using own0[of e] disj[of e] by (intro map_back_keeps_own)
    qed
    then have "reconstruct_lines lines (map_back (map_back segs A) B) =
               reconstruct_lines lines (map_back segs A)"
      by (rule reconstruct_lines_cong)
    then show ?thesis by (simp add: zA zAB map_back_append)
  qed
  then show ?thesis
    by (simp add: finish_def Let_def idx_def texts_def work_def)
qed

lemma place_cells_Nil: "place_cells cs [] = cs"
  by (induction cs) auto

lemma place_Nil: "place segs [] = segs"
proof (induction segs)
  case Nil
  then show ?case by simp
next
  case (Cons s segs)
  then show ?case by (cases s) (simp_all add: place_cells_Nil)
qed

lemma collect_cells_length: "length (collect_cells j c0 cells) = work_cells cells"
  by (induction cells arbitrary: c0) (auto simp: work_cells_def)

lemma map_back_cells:
  assumes "j < length S" "S ! j = TableRow i pre (done @ cells)"
  shows "map_back S (zip (map snd (collect_cells j (length done) cells)) rs) =
         S[j := TableRow i pre (done @ place_cells cells rs)]"
  using assms
proof (induction cells arbitrary: "done" rs S)
  case Nil
  then have "S ! j = TableRow i pre done" by simp
  then have "S[j := TableRow i pre done] = S" by (metis list_update_id)
  then show ?case by simp
next
  case (Cons c cs)
  show ?case
  proof (cases "cell_text c \<noteq> []")
    case False
    have "map_back S (zip (map snd (collect_cells j (length (done @ [c])) cs)) rs) =
          S[j := TableRow i pre ((done @ [c]) @ place_cells cs rs)]"
      using Cons.prems by (intro Cons.IH) simp_all
    then show ?thesis using False by simp
  next
    case True
    show ?thesis
    proof (cases rs)
      case Nil
      have "S[j := TableRow i pre (done @ c # cs)] = S" using Cons.prems by (metis list_update_id)
      then show ?thesis using Nil True by (simp add: place_cells_Nil)
    next
      case (Cons r rs')
      define c' where "c' = c\<lparr>cell_translated := Some r\<rparr>"
      define S1 where "S1 = S[j := TableRow i pre (done @ c' # cs)]"
      have at: "attach (KCell (length done)) r (S ! j) = TableRow i pre (done @ c' # cs)"
        using Cons.prems(2) by (simp add: c'_def nth_append)
      have j1: "j < length S1" using Cons.prems(1) by (simp add: S1_def)
      have s1: "S1 ! j = TableRow i pre ((done @ [c']) @ cs)"
        using Cons.prems(1) by (simp add: S1_def)
      have ih: "map_back S1 (zip (map snd (collect_cells j (length (done @ [c'])) cs)) rs') =
                S1[j := TableRow i pre ((done @ [c']) @ place_cells cs rs')]"
        using j1 s1 by (rule Cons.IH)
      have "map_back S (zip (map snd (collect_cells j (length done) (c # cs))) rs) =
            map_back S1 (zip (map snd (collect_cells j (Suc (length done)) cs)) rs')"
        using True Cons Cons.prems(1) at by (simp add: map_back_Cons S1_def)
      also have "\<dots> = S1[j := TableRow i pre ((done @ [c']) @ place_cells cs rs')]"
        using ih by simp
      also have "\<dots> = S[j := TableRow i pre (done @ place_cells (c # cs) rs)]"
        using True Cons by (simp add: S1_def c'_def)
      finally show ?thesis .
    qed
  qed
qed

lemma map_back_place_gen:
  "map_back (P @ segs) (zip (map snd (collect_texts (length P) segs)) rs) = P @ place segs rs"
proof (induction segs arbitrary: P rs)
  case Nil
  then show ?case by simp
next
  case (Cons seg segs)
  show ?case
  proof (cases seg)
    case (TextSeg i pre body phs tr)
    show ?thesis
    proof (cases rs)
      case Nil
      then show ?thesis using TextSeg by (simp add: place_Nil)
    next
      case (Cons r rs')
      define seg' where "seg' = TextSeg i pre body phs (Some r)"
      have ih: "map_back ((P @ [seg']) @ segs) (zip (map snd (collect_texts (length (P @ [seg'])) segs)) rs') =
                (P @ [seg']) @ place segs rs'"
        by (rule Cons.IH)
      have "map_back (P @ seg # segs) (zip (map snd (collect_texts (length P) (seg # segs))) rs) =
            map_back (P @ seg' # segs) (zip (map snd (collect_texts (Suc (length P)) segs)) rs')"
        using TextSeg Cons by (simp add: map_back_Cons seg'_def)
      then show ?thesis using ih TextSeg Cons by (simp add: seg'_def)
    qed
  next
    case (TableRow i pre cells)
    define A where "A = map snd (collect_cells (length P) 0 cells)"
    define B where "B = map snd (collect_texts (Suc (length P)) segs)"
    define seg' where "seg' = TableRow i pre (place_cells cells rs)"
    have lA: "length A = work_cells cells" by (simp add: A_def collect_cells_length)
    have z: "zip (A @ B) rs = zip A rs @ zip B (drop (length A) rs)"
      by (simp add: zip_append1 zip_take_right)
    have a: "map_back (P @ seg # segs) (zip A rs) = (P @ seg # segs)[length P := seg']"
      using map_back_cells[of "length P" "P @ seg # segs" i pre "[]" cells rs]
      by (simp add: TableRow A_def seg'_def)
    have ih: "map_back ((P @ [seg']) @ segs)
                (zip (map snd (collect_texts (length (P @ [seg'])) segs)) (drop (length A) rs)) =
              (P @ [seg']) @ place segs (drop (length A) rs)"
      by (rule Cons.IH)
    have "map_back (P @ seg # segs) (zip (map snd (collect_texts (length P) (seg # segs))) rs) =
          map_back (P @ seg # segs) (zip (A @ B) rs)"
      by (simp add: TableRow A_def B_def)
    also have "\<dots> = map_back ((P @ seg # segs)[length P := seg']) (zip B (drop (length A) rs))"
      by (simp add: z map_back_append a)
    also have "\<dots> = (P @ [seg']) @ place segs (drop (length A) rs)"
      using ih by (simp add: B_def)
    finally show ?thesis by (simp add: TableRow seg'_def lA)
  qed
qed

lemma map_back_place:
  "map_back segs (zip (map snd (collect_texts 0 segs)) rs) = place segs rs"
  using map_back_place_gen[of "[]" segs rs] by simp

lemma aligned_Nil_left: "aligned [] rs = []"
  by (simp add: aligned_def)

lemma aligned_Cons_Nil: "aligned ts [] = ts"
  by (simp add: aligned_def)

lemma aligned_Cons_Cons: "aligned (t # ts) (r # rs) = r # aligned ts rs"
  by (simp add: aligned_def)

lemma aligned_append: "aligned (A @ B) rs = aligned A rs @ aligned B (drop (length A) rs)"
proof (cases "length A \<le> length rs")
  case True
  then show ?thesis by (simp add: aligned_def take_add)
next
  case False
  then show ?thesis by (simp add: aligned_def)
qed

lemma used_place_cells:
  "list_all (\<lambda>c. cell_translated c = None) cells \<Longrightarrow>
   map used_cell (filter (\<lambda>c. cell_text c \<noteq> []) (place_cells cells rs)) =
     aligned (map fst (collect_cells j c0 cells)) rs"
proof (induction cells arbitrary: rs c0)
  case Nil
  then show ?case by (simp add: aligned_Nil_left)
next
  case (Cons c cs)
  show ?case
  proof (cases "cell_text c \<noteq> []")
    case False
    then show ?thesis using Cons by simp
  next
    case True
    show ?thesis
    proof (cases rs)
      case Nil
      then show ?thesis using True Cons.prems Cons.IH[of "[]" "Suc c0"]
        by (simp add: aligned_Cons_Nil used_cell_def)
    next
      case (Cons r rs')
      then show ?thesis using True Cons.prems Cons.IH[of rs' "Suc c0"]
        by (simp add: aligned_Cons_Cons used_cell_def)
    qed
  qed
qed

lemma used_place:
  "list_all fresh segs \<Longrightarrow>
   used_texts (place segs rs) = aligned (map fst (collect_texts n segs)) rs"
proof (induction segs arbitrary: rs n)
  case Nil
  then show ?case by (simp add: aligned_Nil_left)
next
  case (Cons seg segs)
  show ?case
  proof (cases seg)
    case (TextSeg i pre body phs tr)
    show ?thesis
    proof (cases rs)
      case Nil
      then show ?thesis using TextSeg Cons.prems Cons.IH[of "[]" "Suc n"]
        by (simp add: aligned_Cons_Nil)
    next
      case (Cons r rs')
      then show ?thesis using TextSeg Cons.prems Cons.IH[of rs' "Suc n"]
        by (simp add: aligned_Cons_Cons)
    qed
  next
    case (TableRow i pre cells)
    have fr: "list_all (\<lambda>c. cell_translated c = None) cells" and fs: "list_all fresh segs"
      using Cons.prems TableRow by simp_all
    have "used_texts (place (seg # segs) rs) =
          aligned (map fst (collect_cells n 0 cells)) rs @
          aligned (map fst (collect_texts (Suc n) segs)) (drop (work_cells cells) rs)"
      using used_place_cells[OF fr, of rs n 0] Cons.IH[OF fs, of "drop (work_cells cells) rs" "Suc n"]
      by (simp add: TableRow)
    then show ?thesis
      by (simp add: TableRow aligned_append collect_cells_length)
  qed
qed




section \<open>Spurious tokens and the punctuation rewrites\<close>

lemma not_digit_prefix [simp]: "\<not> is_digit 10216"
  by (simp add: is_digit_def digit_zeros_def)

lemma not_digit_suffix [simp]: "\<not> is_digit 10217"
  by (simp add: is_digit_def digit_zeros_def)

lemma takeWhile_append_stop: "\<not> P x \<Longrightarrow> takeWhile P (xs @ x # ys) = takeWhile P xs"
  by (induction xs) auto

lemma dropWhile_append_stop: "\<not> P x \<Longrightarrow> dropWhile P (xs @ x # ys) = dropWhile P xs @ x # ys"
  by (induction xs) auto

lemma takeWhile_all: "list_all P xs \<Longrightarrow> \<not> P x \<Longrightarrow> takeWhile P (xs @ x # ys) = xs"
  by (induction xs) auto

lemma dropWhile_all: "list_all P xs \<Longrightarrow> \<not> P x \<Longrightarrow> dropWhile P (xs @ x # ys) = x # ys"
  by (induction xs) auto

lemma match_token_Some:
  "match_token s = Some (g, rest) \<Longrightarrow> s = g @ rest \<and> 3 \<le> length g"
proof -
  assume a: "match_token s = Some (g, rest)"
  then obtain r where s: "s = 10216 # r"
    by (auto simp: match_token_def split: list.splits if_splits)
  from a obtain r' where d: "dropWhile is_digit r = 10217 # r'"
    and g: "g = 10216 # takeWhile is_digit r @ [10217]" and rest: "rest = r'"
    and ne: "takeWhile is_digit r \<noteq> []"
    unfolding s by (auto simp: match_token_def Let_def split: list.splits if_splits)
  have "r = takeWhile is_digit r @ dropWhile is_digit r" by simp
  then have "r = takeWhile is_digit r @ 10217 # r'" unfolding d .
  then have "s = g @ rest" unfolding s g rest by simp
  moreover have "3 \<le> length g" using ne unfolding g by (cases "takeWhile is_digit r") auto
  ultimately show ?thesis by simp
qed

lemma match_token_append:
  "s \<noteq> [] \<Longrightarrow> match_token (s @ 10216 # r) =
     (case match_token s of None \<Rightarrow> None | Some (g, rest) \<Rightarrow> Some (g, rest @ 10216 # r))"
proof -
  assume "s \<noteq> []"
  then obtain c r0 where s: "s = c # r0" by (cases s) auto
  show ?thesis
  proof (cases "dropWhile is_digit r0")
    case Nil
    then show ?thesis
      unfolding s
      by (simp add: match_token_def Let_def takeWhile_append_stop dropWhile_append_stop
          del: dropWhile_eq_Nil_conv)
  next
    case (Cons e r')
    then show ?thesis
      unfolding s
      by (simp add: match_token_def Let_def takeWhile_append_stop dropWhile_append_stop)
  qed
qed

lemma match_token_token:
  "ds \<noteq> [] \<Longrightarrow> list_all is_digit ds \<Longrightarrow>
   match_token (10216 # ds @ 10217 # b) = Some (10216 # ds @ [10217], b)"
  by (simp add: match_token_def Let_def takeWhile_all dropWhile_all)

lemma clean_append_prefix:
  "re_sub_pure match_token f (a @ 10216 # r) =
   re_sub_pure match_token f a @ re_sub_pure match_token f (10216 # r)"
proof (induction a rule: length_induct)
  case (1 a)
  show ?case
  proof (cases a)
    case Nil
    then show ?thesis by simp
  next
    case (Cons c cs)
    show ?thesis
    proof (cases "match_token a")
      case None
      then have n: "match_token (c # (cs @ 10216 # r)) = None"
        using match_token_append[of a r] Cons by simp
      have "re_sub_pure match_token f (cs @ 10216 # r) =
            re_sub_pure match_token f cs @ re_sub_pure match_token f (10216 # r)"
        using 1 Cons by simp
      then show ?thesis
        using None n unfolding Cons by (simp add: re_sub_pure_None)
    next
      case (Some p)
      obtain g rest where p: "p = (g, rest)" by (cases p)
      from match_token_Some[OF Some[unfolded p]] have a: "a = g @ rest" and lg: "3 \<le> length g" by auto
      have la: "length a = length g + length rest" using a by simp
      then have lr: "length rest \<le> length cs" using lg Cons by simp
      have m: "match_token (c # (cs @ 10216 # r)) = Some (g, rest @ 10216 # r)"
        using match_token_append[of a r] Cons Some p by simp
      have "length rest < length a" using la lg by linarith
      then have ih: "re_sub_pure match_token f (rest @ 10216 # r) =
            re_sub_pure match_token f rest @ re_sub_pure match_token f (10216 # r)"
        using 1 by simp
      have lr': "length (rest @ 10216 # r) \<le> length (cs @ 10216 # r)" using lr by simp
      show ?thesis
        using re_sub_pure_Some[where m = match_token and f = f and g = g and c = c
                and cs = "cs @ 10216 # r" and rest = "rest @ 10216 # r", OF m lr']
              re_sub_pure_Some[where m = match_token and f = f and g = g and c = c
                and cs = cs and rest = rest, OF Some[unfolded p Cons] lr] ih
        unfolding Cons by simp
    qed
  qed
qed

lemma clean_token:
  assumes "ds \<noteq> []" "list_all is_digit ds"
  shows "re_sub_pure match_token (clean_spurious known) (a @ 10216 # ds @ [10217] @ b) =
         re_sub_pure match_token (clean_spurious known) a @
         (if 10216 # ds @ [10217] \<in> set known then 10216 # ds @ [10217] else []) @
         re_sub_pure match_token (clean_spurious known) b"
proof -
  have m: "match_token (10216 # (ds @ 10217 # b)) = Some (10216 # ds @ [10217], b)"
    using match_token_token[OF assms] by simp
  have "re_sub_pure match_token (clean_spurious known) (10216 # (ds @ 10217 # b)) =
        clean_spurious known (10216 # ds @ [10217]) @ re_sub_pure match_token (clean_spurious known) b"
    using re_sub_pure_Some[where m = match_token and f = "clean_spurious known"
        and g = "10216 # ds @ [10217]" and c = 10216 and cs = "ds @ 10217 # b" and rest = b, OF m]
    by simp
  then show ?thesis
    using clean_append_prefix[of "clean_spurious known" a "ds @ [10217] @ b"]
    by (simp add: clean_spurious_def)
qed

lemma is_space_not_comma [simp]: "\<not> is_space 44"
  by (simp add: is_space_def)

lemma is_space_not_rparen [simp]: "\<not> is_space 41"
  by (simp add: is_space_def)

lemma comma_rewrite:
  assumes "44 \<notin> set a" "list_all is_space ws" "\<not> is_space c"
  shows "re_sub_pure (match_comma_then c) (\<lambda>_. [c]) (a @ 44 # ws @ c # b) =
         a @ c # re_sub_pure (match_comma_then c) (\<lambda>_. [c]) b"
  using assms(1)
proof (induction a)
  case Nil
  have m: "match_comma_then c (44 # (ws @ c # b)) = Some ((), b)"
    using assms(2,3) by (simp add: match_comma_then_def dropWhile_all)
  have "re_sub_pure (match_comma_then c) (\<lambda>_. [c]) (44 # (ws @ c # b)) =
        [c] @ re_sub_pure (match_comma_then c) (\<lambda>_. [c]) b"
    using re_sub_pure_Some[where m = "match_comma_then c" and f = "\<lambda>_. [c]"
        and g = "()" and c = 44 and cs = "ws @ c # b" and rest = b, OF m]
    by simp
  then show ?case by simp
next
  case (Cons x xs)
  then have "match_comma_then c (x # (xs @ 44 # ws @ c # b)) = None"
    by (simp add: match_comma_then_def)
  then show ?case using Cons by (simp add: re_sub_pure_None)
qed

lemma substitute_empty: "substitute T [] = T"
  by (simp add: substitute_def sorted_items_def)

section \<open>The round trip of protection and restoration\<close>

subsection \<open>Placeholder tokens\<close>

lemma py_str_digits: "c \<in> set (py_str n) \<Longrightarrow> 48 \<le> c \<and> c \<le> 57"
proof (induction n arbitrary: c rule: py_str.induct)
  case (1 n)
  show ?case
  proof (cases "n < 10")
    case True
    then show ?thesis using "1.prems" by (simp add: py_str.simps[of n])
  next
    case False
    have "n mod 10 < 10" by simp
    then show ?thesis using "1.prems" "1.IH" False
      by (auto simp: py_str.simps[of n])
  qed
qed

lemma py_str_nonempty: "py_str n \<noteq> []"
  by (subst py_str.simps) simp

lemma digits_val_py_str: "digits_val (py_str n) = n"
proof (induction n rule: py_str.induct)
  case (1 n)
  show ?case
  proof (cases "n < 10")
    case True
    then show ?thesis by (simp add: py_str.simps[of n] digits_val_def)
  next
    case False
    then have "digits_val (py_str (n div 10)) = n div 10" using 1 by simp
    then show ?thesis using False
      by (simp add: py_str.simps[of n] digits_val_def)
  qed
qed

lemma py_str_inj:
  assumes "py_str a = py_str b"
  shows "a = b"
proof -
  have "a = digits_val (py_str a)" by (simp only: digits_val_py_str)
  also have "\<dots> = digits_val (py_str b)" by (simp only: assms)
  also have "\<dots> = b" by (rule digits_val_py_str)
  finally show ?thesis .
qed

lemma make_placeholder_tokch: "c \<in> set (make_placeholder n) \<Longrightarrow> tokch c"
  by (auto simp: make_placeholder_def tokch_def dest: py_str_digits)

lemma make_placeholder_Cons: "make_placeholder n = 10216 # py_str n @ [10217]"
  by (simp add: make_placeholder_def)

lemma py_str_no_delims: "10216 \<notin> set (py_str n) \<and> 10217 \<notin> set (py_str n)"
  using py_str_digits[of _ n] by fastforce

lemma make_placeholder_inj: "make_placeholder a = make_placeholder b \<Longrightarrow> a = b"
  by (simp add: make_placeholder_def py_str_inj)

lemma list_all_neq: "x \<notin> set u \<Longrightarrow> list_all (\<lambda>c. c \<noteq> x) u"
  by (induction u) auto

lemma list_prefix_stop:
  assumes "x \<notin> set u" "x \<notin> set v" "u @ x # r = v @ x # r'"
  shows "u = v"
proof -
  have "takeWhile (\<lambda>c. c \<noteq> x) (u @ x # r) = u"
    by (rule takeWhile_all[OF list_all_neq[OF assms(1)]]) simp
  moreover have "takeWhile (\<lambda>c. c \<noteq> x) (v @ x # r') = v"
    by (rule takeWhile_all[OF list_all_neq[OF assms(2)]]) simp
  ultimately show ?thesis using assms(3) by simp
qed

lemma startswith_placeholder:
  "startswith (make_placeholder j @ w) (make_placeholder k) \<longleftrightarrow> j = k"
proof
  assume "startswith (make_placeholder j @ w) (make_placeholder k)"
  then have "take (length (make_placeholder k)) (make_placeholder j @ w) = make_placeholder k"
    by (simp add: startswith_def)
  then have "make_placeholder j @ w =
        make_placeholder k @ drop (length (make_placeholder k)) (make_placeholder j @ w)"
    by (metis append_take_drop_id)
  then obtain r where "make_placeholder j @ w = make_placeholder k @ r" ..
  then have e: "py_str j @ 10217 # w = py_str k @ 10217 # r"
    by (simp add: make_placeholder_def)
  have "py_str j = py_str k"
    by (rule list_prefix_stop[OF _ _ e]) (simp_all add: py_str_no_delims)
  then show "j = k" by (rule py_str_inj)
next
  assume "j = k"
  then show "startswith (make_placeholder j @ w) (make_placeholder k)"
    by (simp add: startswith_def)
qed

subsection \<open>Rendered items\<close>

lemma render_Nil [simp]: "render [] = []"
  by (simp add: render_def)

lemma render_Cons [simp]: "render (i # is) = render_item i @ render is"
  by (simp add: render_def)

lemma render_append [simp]: "render (xs @ ys) = render xs @ render ys"
  by (simp add: render_def)

lemma expand_Nil [simp]: "expand M [] = []"
  by (simp add: expand_def)

lemma expand_Cons [simp]: "expand M (i # is) = expand_item M i @ expand M is"
  by (simp add: expand_def)

lemma expand_append [simp]: "expand M (xs @ ys) = expand M xs @ expand M ys"
  by (simp add: expand_def)

lemma render_lits: "render (map Lit s) = s"
  by (induction s) auto

lemma expand_lits: "expand M (map Lit s) = s"
  by (induction s) auto

lemma render_all_lit: "list_all is_lit xs \<Longrightarrow> expand M xs = render xs"
proof (induction xs)
  case (Cons x xs)
  then show ?case by (cases x) auto
qed simp

lemma expand_extend:
  "list_all (tok_below (length M)) xs \<Longrightarrow> expand (M @ extra) xs = expand M xs"
proof (induction xs)
  case (Cons x xs)
  then show ?case by (cases x) (auto simp: nth_append)
qed simp

lemma tok_below_mono: "list_all (tok_below N) xs \<Longrightarrow> N \<le> N' \<Longrightarrow> list_all (tok_below N') xs"
proof (induction xs)
  case (Cons x xs)
  then show ?case by (cases x) auto
qed simp

lemma takeWhile_render:
  assumes "\<not> tokch c"
  shows "takeWhile (\<lambda>x. x \<noteq> c) (render xs) = render (takeWhile (\<lambda>i. i \<noteq> Lit c) xs)"
proof (induction xs)
  case Nil
  then show ?case by simp
next
  case (Cons x xs)
  show ?case
  proof (cases x)
    case (Lit d)
    then show ?thesis using Cons by auto
  next
    case (Tok n)
    have "\<forall>y\<in>set (make_placeholder n). y \<noteq> c" using assms make_placeholder_tokch by blast
    then show ?thesis using Cons Tok by (simp add: takeWhile_append2)
  qed
qed

lemma dropWhile_render:
  assumes "\<not> tokch c"
  shows "dropWhile (\<lambda>x. x \<noteq> c) (render xs) = render (dropWhile (\<lambda>i. i \<noteq> Lit c) xs)"
proof (induction xs)
  case Nil
  then show ?case by simp
next
  case (Cons x xs)
  show ?case
  proof (cases x)
    case (Lit d)
    then show ?thesis using Cons by auto
  next
    case (Tok n)
    have "\<forall>y\<in>set (make_placeholder n). y \<noteq> c" using assms make_placeholder_tokch by blast
    then show ?thesis using Cons Tok by (simp add: dropWhile_append2)
  qed
qed

lemma render_Cons_lit:
  assumes "render xs = c # r" "\<not> tokch c"
  shows "\<exists>ys. xs = Lit c # ys \<and> r = render ys"
proof (cases xs)
  case Nil
  then show ?thesis using assms by simp
next
  case (Cons x ys)
  show ?thesis
  proof (cases x)
    case (Lit d)
    then show ?thesis using assms Cons by auto
  next
    case (Tok n)
    then have "c = 10216" using assms Cons by (simp add: make_placeholder_def)
    then show ?thesis using assms(2) by (simp add: tokch_def)
  qed
qed

lemma dropWhile_items_head:
  "dropWhile (\<lambda>i. i \<noteq> Lit c) xs = y # ys \<Longrightarrow> y = Lit c"
  using hd_dropWhile[of "\<lambda>i. i \<noteq> Lit c" xs] by simp

lemma split_at_lit:
  assumes "\<not> tokch c" "dropWhile (\<lambda>x. x \<noteq> c) (render xs) = d # r"
  shows "\<exists>ys. xs = takeWhile (\<lambda>i. i \<noteq> Lit c) xs @ Lit c # ys \<and> r = render ys \<and> d = c"
proof -
  have dr: "render (dropWhile (\<lambda>i. i \<noteq> Lit c) xs) = d # r"
    using assms by (simp add: dropWhile_render)
  then obtain y ys where dw: "dropWhile (\<lambda>i. i \<noteq> Lit c) xs = y # ys"
    by (cases "dropWhile (\<lambda>i. i \<noteq> Lit c) xs") auto
  then have y: "y = Lit c" by (rule dropWhile_items_head)
  have "xs = takeWhile (\<lambda>i. i \<noteq> Lit c) xs @ dropWhile (\<lambda>i. i \<noteq> Lit c) xs" by simp
  then have "xs = takeWhile (\<lambda>i. i \<noteq> Lit c) xs @ Lit c # ys" unfolding dw y .
  moreover have "d = c \<and> r = render ys" using dr unfolding dw y by simp
  ultimately show ?thesis by blast
qed

subsection \<open>The patterns on rendered items\<close>

lemma not_tokch_marks [simp]:
  "\<not> tokch 96" "\<not> tokch 91" "\<not> tokch 93" "\<not> tokch 40" "\<not> tokch 41" "\<not> tokch 42" "\<not> tokch 10"
  by (simp_all add: tokch_def)

lemma match_inline_code_render:
  assumes "match_inline_code (c # render xs) = Some (body, rest)"
  shows "\<exists>bi ys. c = 96 \<and> xs = bi @ Lit 96 # ys \<and> body = render bi \<and> rest = render ys"
proof -
  from assms have c: "c = 96"
    by (auto simp: match_inline_code_def Let_def split: if_splits)
  from assms obtain d where dw: "dropWhile (\<lambda>x. x \<noteq> 96) (render xs) = d # rest"
    and body: "body = takeWhile (\<lambda>x. x \<noteq> 96) (render xs)"
    by (auto simp: match_inline_code_def Let_def c split: if_splits list.splits)
  from split_at_lit[OF _ dw] obtain ys where
    xs: "xs = takeWhile (\<lambda>i. i \<noteq> Lit 96) xs @ Lit 96 # ys" and r: "rest = render ys"
    by auto
  have "body = render (takeWhile (\<lambda>i. i \<noteq> Lit 96) xs)"
    unfolding body by (rule takeWhile_render) simp
  then show ?thesis using c xs r by blast
qed

lemma match_link_render:
  assumes "match_link (c # render xs) = Some ((display, url), rest)"
  shows "\<exists>di ui ys. c = 91 \<and> xs = di @ Lit 93 # Lit 40 # ui @ Lit 41 # ys \<and>
           display = render di \<and> url = render ui \<and> rest = render ys"
proof -
  from assms have c: "c = 91"
    by (auto simp: match_link_def Let_def split: if_splits)
  from assms obtain d r1 where dw: "dropWhile (\<lambda>x. x \<noteq> 93) (render xs) = d # 40 # r1"
    and disp: "display = takeWhile (\<lambda>x. x \<noteq> 93) (render xs)"
    and rest1: "(case dropWhile (\<lambda>x. x \<noteq> 41) r1 of [] \<Rightarrow> None
                 | p # r'' \<Rightarrow> Some ((display, takeWhile (\<lambda>x. x \<noteq> 41) r1), r'')) = Some ((display, url), rest)"
    by (auto simp: match_link_def Let_def c split: if_splits list.splits)
  from rest1 obtain p where dw2: "dropWhile (\<lambda>x. x \<noteq> 41) r1 = p # rest"
    and url: "url = takeWhile (\<lambda>x. x \<noteq> 41) r1"
    by (auto split: list.splits)
  from split_at_lit[OF _ dw] obtain ys1 where
    xs: "xs = takeWhile (\<lambda>i. i \<noteq> Lit 93) xs @ Lit 93 # ys1" and r1: "40 # r1 = render ys1"
    by auto
  from render_Cons_lit[OF r1[symmetric]] obtain ys2 where
    ys1: "ys1 = Lit 40 # ys2" and r1': "r1 = render ys2" by auto
  from split_at_lit[OF _ dw2[unfolded r1']] obtain ys where
    ys2: "ys2 = takeWhile (\<lambda>i. i \<noteq> Lit 41) ys2 @ Lit 41 # ys" and r: "rest = render ys"
    by auto
  define di where "di = takeWhile (\<lambda>i. i \<noteq> Lit 93) xs"
  define ui where "ui = takeWhile (\<lambda>i. i \<noteq> Lit 41) ys2"
  have d: "display = render di" unfolding disp di_def by (rule takeWhile_render) simp
  have u: "url = render ui" unfolding url r1' ui_def by (rule takeWhile_render) simp
  have "xs = di @ Lit 93 # Lit 40 # ui @ Lit 41 # ys"
    using xs ys1 ys2 unfolding di_def ui_def by simp
  then show ?thesis using c d u r by blast
qed

lemma match_link_head: "match_link s = Some (g, rest) \<Longrightarrow> \<exists>r. s = 91 # r"
  by (auto simp: match_link_def Let_def split: list.splits if_splits)

lemma match_bold_link_render:
  assumes "match_bold_link (c # render xs) = Some ((display, url), rest)"
  shows "\<exists>di ui ys. c = 42 \<and>
           xs = Lit 42 # Lit 91 # di @ Lit 93 # Lit 40 # ui @ Lit 41 # Lit 42 # Lit 42 # ys \<and>
           display = render di \<and> url = render ui \<and> rest = render ys"
proof -
  from assms obtain r where rx: "render xs = 42 # r" and c: "c = 42"
    by (auto simp: match_bold_link_def split: list.splits if_splits)
  from assms obtain r2 where ml: "match_link r = Some ((display, url), 42 # 42 # rest)"
    unfolding rx c
    by (auto simp: match_bold_link_def split: list.splits if_splits option.splits)
  from render_Cons_lit[OF rx] obtain ys1 where xs: "xs = Lit 42 # ys1" and r: "r = render ys1" by auto
  from match_link_head[OF ml] obtain r3 where r3: "r = 91 # r3" by auto
  from render_Cons_lit[OF r3[unfolded r]] obtain ys2 where
    ys1: "ys1 = Lit 91 # ys2" and r3': "r3 = render ys2" by auto
  from match_link_render[OF ml[unfolded r3 r3']] obtain di ui ys3 where
    ys2: "ys2 = di @ Lit 93 # Lit 40 # ui @ Lit 41 # ys3"
    and d: "display = render di" and u: "url = render ui" and r4: "42 # 42 # rest = render ys3"
    by auto
  from render_Cons_lit[OF r4[symmetric]] obtain ys4 where
    ys3: "ys3 = Lit 42 # ys4" and r5: "42 # rest = render ys4" by auto
  from render_Cons_lit[OF r5[symmetric]] obtain ys where
    ys4: "ys4 = Lit 42 # ys" and r6: "rest = render ys" by auto
  show ?thesis using c xs ys1 ys2 ys3 ys4 d u r6 by blast
qed

lemma tokch_not_star_nl: "tokch a \<Longrightarrow> a \<noteq> 42 \<and> a \<noteq> 10"
  by (auto simp: tokch_def)

lemma bold_close_render:
  "bold_close (render xs) = Some (cont, rest) \<Longrightarrow>
   \<exists>ci ys. xs = ci @ Lit 42 # Lit 42 # ys \<and> cont = render ci \<and> rest = render ys"
proof (induction xs arbitrary: cont)
  case Nil
  then show ?case by simp
next
  case (Cons x xs)
  show ?case
  proof (cases x)
    case (Tok n)
    have "bold_close (make_placeholder n @ render xs) =
          (case bold_close (render xs) of None \<Rightarrow> None
           | Some (c, r') \<Rightarrow> Some (make_placeholder n @ c, r'))"
      by (rule bold_close_skip) (auto dest: make_placeholder_tokch tokch_not_star_nl)
    then obtain c' where bc: "bold_close (render xs) = Some (c', rest)"
      and cont: "cont = make_placeholder n @ c'"
      using Cons.prems Tok by (auto split: option.splits)
    from Cons.IH[OF bc] obtain ci ys where "xs = ci @ Lit 42 # Lit 42 # ys" "c' = render ci" "rest = render ys"
      by auto
    then have "x # xs = (Tok n # ci) @ Lit 42 # Lit 42 # ys \<and> cont = render (Tok n # ci) \<and> rest = render ys"
      using Tok cont by simp
    then show ?thesis by blast
  next
    case (Lit a)
    show ?thesis
    proof (cases "render xs")
      case Nil
      then show ?thesis using Cons.prems Lit by simp
    next
      case (Cons b r)
      show ?thesis
      proof (cases "a = 42 \<and> b = 42")
        case True
        then have "cont = []" "rest = r" using Cons.prems Lit Cons by auto
        moreover from render_Cons_lit[OF Cons[unfolded]] True obtain ys where
          "xs = Lit 42 # ys" "r = render ys" by auto
        ultimately have "x # xs = [] @ Lit 42 # Lit 42 # ys \<and> cont = render [] \<and> rest = render ys"
          using Lit True by simp
        then show ?thesis by blast
      next
        case False
        then obtain c' where bc: "bold_close (render xs) = Some (c', rest)" and cont: "cont = a # c'"
          using Cons.prems Lit Cons by (auto split: if_splits option.splits)
        from Cons.IH[OF bc] obtain ci ys where "xs = ci @ Lit 42 # Lit 42 # ys" "c' = render ci" "rest = render ys"
          by auto
        then have "x # xs = (Lit a # ci) @ Lit 42 # Lit 42 # ys \<and> cont = render (Lit a # ci) \<and> rest = render ys"
          using Lit cont by simp
        then show ?thesis by blast
      qed
    qed
  qed
qed

lemma match_bold_render:
  assumes "match_bold (c # render xs) = Some (inner, rest)"
  shows "\<exists>ci ys. c = 42 \<and> xs = Lit 42 # ci @ Lit 42 # Lit 42 # ys \<and> inner = render ci \<and> rest = render ys"
proof -
  from assms obtain c' r where rx: "render xs = 42 # c' # r" and c: "c = 42" and nl: "c' \<noteq> 10"
    by (auto simp: match_bold_def split: list.splits if_splits)
  from assms obtain cont where bc: "bold_close r = Some (cont, rest)" and inner: "inner = c' # cont"
    unfolding rx c by (auto simp: match_bold_def split: if_splits option.splits)
  from render_Cons_lit[OF rx] obtain ys1 where xs: "xs = Lit 42 # ys1" and r1: "c' # r = render ys1" by auto
  have "\<exists>ci ys. ys1 = ci @ Lit 42 # Lit 42 # ys \<and> c' # cont = render ci \<and> rest = render ys"
  proof (cases ys1)
    case Nil
    then show ?thesis using r1 by simp
  next
    case (Cons y ys2)
    show ?thesis
    proof (cases y)
      case (Lit a)
      then have a: "a = c'" and r: "r = render ys2" using r1 Cons by auto
      from bold_close_render[OF bc[unfolded r]] obtain ci ys where
        "ys2 = ci @ Lit 42 # Lit 42 # ys" "cont = render ci" "rest = render ys" by auto
      then have "ys1 = (Lit c' # ci) @ Lit 42 # Lit 42 # ys \<and> c' # cont = render (Lit c' # ci) \<and> rest = render ys"
        using Cons Lit a by simp
      then show ?thesis by blast
    next
      case (Tok n)
      then have c': "c' = 10216" and r: "r = (py_str n @ [10217]) @ render ys2"
        using r1 Cons by (auto simp: make_placeholder_def)
      have "bold_close ((py_str n @ [10217]) @ render ys2) =
            (case bold_close (render ys2) of None \<Rightarrow> None
             | Some (c, r') \<Rightarrow> Some ((py_str n @ [10217]) @ c, r'))"
        by (rule bold_close_skip) (auto dest: py_str_digits)
      then obtain c2 where bc2: "bold_close (render ys2) = Some (c2, rest)"
        and cont: "cont = (py_str n @ [10217]) @ c2"
        using bc unfolding r by (auto split: option.splits)
      from bold_close_render[OF bc2] obtain ci ys where
        "ys2 = ci @ Lit 42 # Lit 42 # ys" "c2 = render ci" "rest = render ys" by auto
      then have "ys1 = (Tok n # ci) @ Lit 42 # Lit 42 # ys \<and> c' # cont = render (Tok n # ci) \<and> rest = render ys"
        using Cons Tok c' cont by (simp add: make_placeholder_def)
      then show ?thesis by blast
    qed
  qed
  then obtain ci ys where "ys1 = ci @ Lit 42 # Lit 42 # ys" "c' # cont = render ci" "rest = render ys"
    by blast
  then show ?thesis using c xs inner by auto
qed

subsection \<open>One pass of protection\<close>

lemma keys_ok_length: "keys_ok N M \<Longrightarrow> length M = N"
  unfolding keys_ok_def by (metis length_map length_upt diff_zero)

lemma dict_set_fresh: "k \<notin> set (map fst M) \<Longrightarrow> dict_set M k v = M @ [(k, v)]"
  by (induction M) auto

lemma keys_ok_fresh: "keys_ok N M \<Longrightarrow> make_placeholder N \<notin> set (map fst M)"
  unfolding keys_ok_def by (auto dest: make_placeholder_inj)

lemma keys_ok_snoc: "keys_ok N M \<Longrightarrow> keys_ok (Suc N) (M @ [(make_placeholder N, v)])"
  unfolding keys_ok_def by simp

lemma dict_set_next:
  "keys_ok N M \<Longrightarrow> dict_set M (make_placeholder N) v = M @ [(make_placeholder N, v)]"
  by (rule dict_set_fresh) (rule keys_ok_fresh)

lemma render_no_prefix_is_lit: "10216 \<notin> set (render xs) \<Longrightarrow> list_all is_lit xs"
proof (induction xs)
  case (Cons x xs)
  then show ?case by (cases x) (auto simp: make_placeholder_def)
qed simp

lemma re_sub_skip:
  assumes A1: "\<And>c r. tokch c \<Longrightarrow> m (c # r) = None"
    and u: "\<And>a. a \<in> set u \<Longrightarrow> tokch a"
  shows "re_sub m f st (u @ r) = (case re_sub m f st r of (out, st') \<Rightarrow> (u @ out, st'))"
  using u
proof (induction u)
  case Nil
  then show ?case by (simp split: prod.splits)
next
  case (Cons a u)
  have "m (a # (u @ r)) = None" using Cons.prems by (intro A1) simp
  then show ?case using Cons by (simp split: prod.splits)
qed

lemma pass_generic:
  fixes m :: "'g matcher" and f :: "pstate \<Rightarrow> 'g \<Rightarrow> ustring \<times> pstate"
  assumes A1: "\<And>c r. tokch c \<Longrightarrow> m (c # r) = None"
    and A2: "\<And>c xs g rest N M.
        m (c # render xs) = Some (g, rest) \<Longrightarrow> keys_ok N M \<Longrightarrow> list_all (tok_below N) xs \<Longrightarrow>
        \<exists>consumed ys new extra.
           Lit c # xs = consumed @ ys \<and> consumed \<noteq> [] \<and> rest = render ys \<and>
           f (N, M) g = (render new, (N + length extra, M @ extra)) \<and>
           keys_ok (N + length extra) (M @ extra) \<and>
           list_all (tok_below (N + length extra)) new \<and>
           (list_all lit_ok consumed \<longrightarrow> list_all lit_ok new) \<and>
           (list_all vfree extra \<longrightarrow> expand (M @ extra) new = expand M consumed)"
  shows "keys_ok N M \<Longrightarrow> list_all (tok_below N) xs \<Longrightarrow> list_all lit_ok xs \<Longrightarrow>
         re_sub m f (N, M) (render xs) = (out, (N', M')) \<Longrightarrow>
         \<exists>xs' extra. out = render xs' \<and> M' = M @ extra \<and> N' = N + length extra \<and>
            keys_ok N' M' \<and> list_all (tok_below N') xs' \<and> list_all lit_ok xs' \<and>
            (list_all vfree extra \<longrightarrow> expand M' xs' = expand M xs)"
proof (induction xs arbitrary: N M out rule: length_induct)
  case (1 xs)
  note IH = "1.IH"
  note k = "1.prems"(1) and tb = "1.prems"(2) and lo = "1.prems"(3) and rs = "1.prems"(4)
  have lenM: "length M = N" using k by (rule keys_ok_length)
  show ?case
  proof (cases xs)
    case Nil
    then have "out = render [] \<and> M' = M @ [] \<and> N' = N + length ([]::phmap)" using rs by simp
    then show ?thesis using k Nil by (intro exI[of _ "[]"]) auto
  next
    case (Cons x rest_items)
    have tb': "list_all (tok_below N) rest_items" and lo': "list_all lit_ok rest_items"
      using tb lo Cons by auto
    show ?thesis
    proof (cases x)
      case (Tok n)
      have n: "n < N" using tb Cons Tok by simp
      have sk: "re_sub m f (N, M) (make_placeholder n @ render rest_items) =
            (case re_sub m f (N, M) (render rest_items) of
               (out, st') \<Rightarrow> (make_placeholder n @ out, st'))"
        by (rule re_sub_skip[where m = m]) (auto intro: A1 dest: make_placeholder_tokch)
      obtain o1 where r1: "re_sub m f (N, M) (render rest_items) = (o1, (N', M'))"
        and out: "out = make_placeholder n @ o1"
        using rs sk unfolding Cons Tok by (auto split: prod.splits)
      from IH[rule_format, of rest_items N M o1] k tb' lo' r1 Cons
      obtain xs' extra where x: "o1 = render xs'" "M' = M @ extra" "N' = N + length extra"
        "keys_ok N' M'" "list_all (tok_below N') xs'" "list_all lit_ok xs'"
        "list_all vfree extra \<longrightarrow> expand M' xs' = expand M rest_items"
        by auto
      have "out = render (Tok n # xs')" using out x(1) by simp
      moreover have "list_all (tok_below N') (Tok n # xs')" using x(3,5) n by simp
      moreover have "list_all lit_ok (Tok n # xs')" using x(6) by simp
      moreover have "list_all vfree extra \<longrightarrow> expand M' (Tok n # xs') = expand M xs"
        using x(7) x(2) n lenM unfolding Cons Tok by (simp add: nth_append)
      ultimately show ?thesis using x(2,3,4) by blast
    next
      case (Lit c)
      show ?thesis
      proof (cases "m (c # render rest_items)")
        case None
        then obtain o1 where r1: "re_sub m f (N, M) (render rest_items) = (o1, (N', M'))"
          and out: "out = c # o1"
          using rs unfolding Cons Lit by (auto split: prod.splits)
        from IH[rule_format, of rest_items N M o1] k tb' lo' r1 Cons
        obtain xs' extra where x: "o1 = render xs'" "M' = M @ extra" "N' = N + length extra"
          "keys_ok N' M'" "list_all (tok_below N') xs'" "list_all lit_ok xs'"
          "list_all vfree extra \<longrightarrow> expand M' xs' = expand M rest_items"
          by auto
        have "out = render (Lit c # xs')" using out x(1) by simp
        moreover have "list_all (tok_below N') (Lit c # xs')" using x(5) by simp
        moreover have "list_all lit_ok (Lit c # xs')" using x(6) lo Cons Lit by simp
        moreover have "list_all vfree extra \<longrightarrow> expand M' (Lit c # xs') = expand M xs"
          using x(7) unfolding Cons Lit by simp
        ultimately show ?thesis using x(2,3,4) by blast
      next
        case (Some p)
        obtain g rest where p: "p = (g, rest)" by (cases p)
        from A2[OF Some[unfolded p] k tb'] obtain consumed ys new extra1 where
          a: "Lit c # rest_items = consumed @ ys" "consumed \<noteq> []" "rest = render ys"
             "f (N, M) g = (render new, (N + length extra1, M @ extra1))"
             "keys_ok (N + length extra1) (M @ extra1)"
             "list_all (tok_below (N + length extra1)) new"
             "list_all lit_ok consumed \<longrightarrow> list_all lit_ok new"
             "list_all vfree extra1 \<longrightarrow> expand (M @ extra1) new = expand M consumed"
          by blast
        obtain consumed' where c': "consumed = Lit c # consumed'" and ri: "rest_items = consumed' @ ys"
          using a(1,2) by (cases consumed) auto
        have len: "length rest \<le> length (render rest_items)" unfolding a(3) ri by simp
        obtain o1 where r1: "re_sub m f (N + length extra1, M @ extra1) (render ys) = (o1, (N', M'))"
          and out: "out = render new @ o1"
          using rs Some len a(4) unfolding Cons Lit p a(3)
          by (auto split: prod.splits)
        have shorter: "length ys < length xs" unfolding Cons ri by simp
        have tby: "list_all (tok_below (N + length extra1)) ys"
          using tb' ri by (auto intro: tok_below_mono)
        have loy: "list_all lit_ok ys" using lo' ri by simp
        have loc: "list_all lit_ok consumed" using lo Cons Lit a(1) by (metis list_all_append)
        from IH[rule_format, of ys "N + length extra1" "M @ extra1" o1] shorter a(5) tby loy r1
        obtain xs' extra2 where x: "o1 = render xs'" "M' = (M @ extra1) @ extra2"
          "N' = (N + length extra1) + length extra2"
          "keys_ok N' M'" "list_all (tok_below N') xs'" "list_all lit_ok xs'"
          "list_all vfree extra2 \<longrightarrow> expand M' xs' = expand (M @ extra1) ys"
          by auto
        have lenM1: "length (M @ extra1) = N + length extra1" using lenM by simp
        have "out = render (new @ xs')" using out x(1) by simp
        moreover have "M' = M @ (extra1 @ extra2)" using x(2) by simp
        moreover have "N' = N + length (extra1 @ extra2)" using x(3) by simp
        moreover have "list_all (tok_below N') (new @ xs')"
          using a(6) x(3,5) by (auto intro: tok_below_mono)
        moreover have "list_all lit_ok (new @ xs')" using a(7) loc x(6) by simp
        moreover have "list_all vfree (extra1 @ extra2) \<longrightarrow> expand M' (new @ xs') = expand M xs"
        proof
          assume v: "list_all vfree (extra1 @ extra2)"
          have e1: "expand M' new = expand (M @ extra1) new"
            unfolding x(2) using a(6) lenM1 by (intro expand_extend) simp
          have e2: "expand (M @ extra1) new = expand M consumed" using a(8) v by simp
          have e3: "expand M' xs' = expand (M @ extra1) ys" using x(7) v by simp
          have e4: "expand (M @ extra1) ys = expand M ys"
            using tb' ri lenM by (intro expand_extend) simp
          have "expand M xs = expand M consumed @ expand M ys"
            unfolding Cons Lit a(1) by simp
          then show "expand M' (new @ xs') = expand M xs" using e1 e2 e3 e4 by simp
        qed
        ultimately show ?thesis using x(4) by blast
      qed
    qed
  qed
qed

subsection \<open>The four passes\<close>

lemma no_match_at_token:
  "tokch c \<Longrightarrow> match_bold_link (c # r) = None"
  "tokch c \<Longrightarrow> match_link (c # r) = None"
  "tokch c \<Longrightarrow> match_inline_code (c # r) = None"
  "tokch c \<Longrightarrow> match_bold (c # r) = None"
  by (auto simp: tokch_def match_bold_link_def match_link_def match_inline_code_def match_bold_def
      split: list.splits)

lemma vfree_single: "list_all vfree [(k, v)] \<longleftrightarrow> 10216 \<notin> set v"
  by (simp add: vfree_def)

lemma step_inline_code:
  assumes m: "match_inline_code (c # render xs) = Some (g, rest)"
    and k: "keys_ok N M" and tb: "list_all (tok_below N) xs"
  shows "\<exists>consumed ys new extra.
           Lit c # xs = consumed @ ys \<and> consumed \<noteq> [] \<and> rest = render ys \<and>
           replace_inline_code (N, M) g = (render new, (N + length extra, M @ extra)) \<and>
           keys_ok (N + length extra) (M @ extra) \<and>
           list_all (tok_below (N + length extra)) new \<and>
           (list_all lit_ok consumed \<longrightarrow> list_all lit_ok new) \<and>
           (list_all vfree extra \<longrightarrow> expand (M @ extra) new = expand M consumed)"
proof -
  from match_inline_code_render[OF m] obtain bi ys where
    c: "c = 96" and xs: "xs = bi @ Lit 96 # ys" and g: "g = render bi" and r: "rest = render ys"
    by blast
  define consumed where "consumed = Lit 96 # bi @ [Lit 96]"
  define new where "new = [Tok N]"
  define extra where "extra = [(make_placeholder N, 96 # render bi @ [96])]"
  have lenM: "length M = N" using k by (rule keys_ok_length)
  have 1: "Lit c # xs = consumed @ ys" by (simp add: c xs consumed_def)
  have 2: "consumed \<noteq> []" by (simp add: consumed_def)
  have 4: "replace_inline_code (N, M) g = (render new, (N + length extra, M @ extra))"
    by (simp add: replace_inline_code_def Let_def dict_set_next[OF k] new_def extra_def g)
  have 5: "keys_ok (N + length extra) (M @ extra)"
    using keys_ok_snoc[OF k] by (simp add: extra_def)
  have 6: "list_all (tok_below (N + length extra)) new" by (simp add: new_def extra_def)
  have 7: "list_all lit_ok consumed \<longrightarrow> list_all lit_ok new" by (simp add: new_def)
  have 8: "list_all vfree extra \<longrightarrow> expand (M @ extra) new = expand M consumed"
  proof
    assume "list_all vfree extra"
    then have "10216 \<notin> set (render bi)" by (simp add: extra_def vfree_def)
    then have "expand M bi = render bi"
      by (intro render_all_lit render_no_prefix_is_lit)
    then show "expand (M @ extra) new = expand M consumed"
      by (simp add: new_def extra_def consumed_def lenM nth_append)
  qed
  show ?thesis using 1 2 r 4 5 6 7 8 by blast
qed

lemma step_bold_link:
  assumes m: "match_bold_link (c # render xs) = Some (g, rest)"
    and k: "keys_ok N M" and tb: "list_all (tok_below N) xs"
  shows "\<exists>consumed ys new extra.
           Lit c # xs = consumed @ ys \<and> consumed \<noteq> [] \<and> rest = render ys \<and>
           replace_bold_link (N, M) g = (render new, (N + length extra, M @ extra)) \<and>
           keys_ok (N + length extra) (M @ extra) \<and>
           list_all (tok_below (N + length extra)) new \<and>
           (list_all lit_ok consumed \<longrightarrow> list_all lit_ok new) \<and>
           (list_all vfree extra \<longrightarrow> expand (M @ extra) new = expand M consumed)"
proof -
  obtain display url where gd: "g = (display, url)" by (cases g)
  from match_bold_link_render[OF m[unfolded gd]] obtain di ui ys where
    c: "c = 42"
    and xs: "xs = Lit 42 # Lit 91 # di @ Lit 93 # Lit 40 # ui @ Lit 41 # Lit 42 # Lit 42 # ys"
    and d: "display = render di" and u: "url = render ui" and r: "rest = render ys"
    by blast
  define consumed where
    "consumed = Lit 42 # Lit 42 # Lit 91 # di @ Lit 93 # Lit 40 # ui @ [Lit 41, Lit 42, Lit 42]"
  define new where "new = [Tok N]"
  define extra where "extra = [(make_placeholder N, render consumed)]"
  have lenM: "length M = N" using k by (rule keys_ok_length)
  have g0: "ustr ''**['' @ display @ ustr '']('' @ url @ ustr '')**'' = render consumed"
    by (simp add: consumed_def d u ustr_def)
  have 1: "Lit c # xs = consumed @ ys" by (simp add: c xs consumed_def)
  have 2: "consumed \<noteq> []" by (simp add: consumed_def)
  have rn: "render new = make_placeholder N" by (simp add: new_def)
  have 4: "replace_bold_link (N, M) g = (render new, (N + length extra, M @ extra))"
    unfolding gd replace_bold_link_def
    by (simp add: Let_def dict_set_next[OF k] rn extra_def g0 del: render_Cons render_append)
  have 5: "keys_ok (N + length extra) (M @ extra)"
    using keys_ok_snoc[OF k] by (simp add: extra_def)
  have 6: "list_all (tok_below (N + length extra)) new" by (simp add: new_def extra_def)
  have 7: "list_all lit_ok consumed \<longrightarrow> list_all lit_ok new" by (simp add: new_def)
  have 8: "list_all vfree extra \<longrightarrow> expand (M @ extra) new = expand M consumed"
  proof
    assume "list_all vfree extra"
    then have "10216 \<notin> set (render consumed)" by (simp add: extra_def vfree_def)
    then have "expand M consumed = render consumed"
      by (intro render_all_lit render_no_prefix_is_lit)
    then show "expand (M @ extra) new = expand M consumed"
      by (simp add: new_def extra_def lenM nth_append)
  qed
  show ?thesis using 1 2 r 4 5 6 7 8 by blast
qed

lemma step_link:
  assumes m: "match_link (c # render xs) = Some (g, rest)"
    and k: "keys_ok N M" and tb: "list_all (tok_below N) xs"
  shows "\<exists>consumed ys new extra.
           Lit c # xs = consumed @ ys \<and> consumed \<noteq> [] \<and> rest = render ys \<and>
           replace_link (N, M) g = (render new, (N + length extra, M @ extra)) \<and>
           keys_ok (N + length extra) (M @ extra) \<and>
           list_all (tok_below (N + length extra)) new \<and>
           (list_all lit_ok consumed \<longrightarrow> list_all lit_ok new) \<and>
           (list_all vfree extra \<longrightarrow> expand (M @ extra) new = expand M consumed)"
proof -
  obtain display url where gd: "g = (display, url)" by (cases g)
  from match_link_render[OF m[unfolded gd]] obtain di ui ys where
    c: "c = 91" and xs: "xs = di @ Lit 93 # Lit 40 # ui @ Lit 41 # ys"
    and d: "display = render di" and u: "url = render ui" and r: "rest = render ys"
    by blast
  define consumed where "consumed = Lit 91 # di @ Lit 93 # Lit 40 # ui @ [Lit 41]"
  define new where "new = Tok N # di @ [Tok (Suc N)]"
  define extra where
    "extra = [(make_placeholder N, [91]), (make_placeholder (Suc N), 93 # 40 # render ui @ [41])]"
  have lenM: "length M = N" using k by (rule keys_ok_length)
  have k1: "keys_ok (Suc N) (M @ [(make_placeholder N, [91])])" using k by (rule keys_ok_snoc)
  have tbd: "list_all (tok_below N) di" using tb xs by simp
  have 1: "Lit c # xs = consumed @ ys" by (simp add: c xs consumed_def)
  have 2: "consumed \<noteq> []" by (simp add: consumed_def)
  have 4: "replace_link (N, M) g = (render new, (N + length extra, M @ extra))"
    unfolding gd replace_link_def
    by (simp add: Let_def dict_set_next[OF k] dict_set_next[OF k1] new_def extra_def d u ustr_def)
  have 5: "keys_ok (N + length extra) (M @ extra)"
    using keys_ok_snoc[OF k1] by (simp add: extra_def)
  have 6: "list_all (tok_below (N + length extra)) new"
    using tbd by (auto simp: new_def extra_def intro: tok_below_mono)
  have 7: "list_all lit_ok consumed \<longrightarrow> list_all lit_ok new"
    by (simp add: new_def consumed_def)
  have 8: "list_all vfree extra \<longrightarrow> expand (M @ extra) new = expand M consumed"
  proof
    assume "list_all vfree extra"
    then have "10216 \<notin> set (render ui)" by (simp add: extra_def vfree_def)
    then have eu: "expand M ui = render ui"
      by (intro render_all_lit render_no_prefix_is_lit)
    have ed: "expand (M @ extra) di = expand M di"
      using tbd lenM by (intro expand_extend) simp
    show "expand (M @ extra) new = expand M consumed"
      using ed by (simp add: new_def extra_def consumed_def lenM nth_append eu)
  qed
  show ?thesis using 1 2 r 4 5 6 7 8 by blast
qed

lemma step_bold:
  assumes m: "match_bold (c # render xs) = Some (g, rest)"
    and k: "keys_ok N M" and tb: "list_all (tok_below N) xs"
  shows "\<exists>consumed ys new extra.
           Lit c # xs = consumed @ ys \<and> consumed \<noteq> [] \<and> rest = render ys \<and>
           replace_bold (N, M) g = (render new, (N + length extra, M @ extra)) \<and>
           keys_ok (N + length extra) (M @ extra) \<and>
           list_all (tok_below (N + length extra)) new \<and>
           (list_all lit_ok consumed \<longrightarrow> list_all lit_ok new) \<and>
           (list_all vfree extra \<longrightarrow> expand (M @ extra) new = expand M consumed)"
proof -
  from match_bold_render[OF m] obtain ci ys where
    c: "c = 42" and xs: "xs = Lit 42 # ci @ Lit 42 # Lit 42 # ys"
    and g: "g = render ci" and r: "rest = render ys"
    by blast
  define consumed where "consumed = Lit 42 # Lit 42 # ci @ [Lit 42, Lit 42]"
  define new where "new = Tok N # ci @ [Tok (Suc N)]"
  define extra where
    "extra = [(make_placeholder N, [42, 42 :: nat]), (make_placeholder (Suc N), [42, 42])]"
  have lenM: "length M = N" using k by (rule keys_ok_length)
  have k1: "keys_ok (Suc N) (M @ [(make_placeholder N, [42, 42])])" using k by (rule keys_ok_snoc)
  have tbd: "list_all (tok_below N) ci" using tb xs by simp
  have 1: "Lit c # xs = consumed @ ys" by (simp add: c xs consumed_def)
  have 2: "consumed \<noteq> []" by (simp add: consumed_def)
  have 4: "replace_bold (N, M) g = (render new, (N + length extra, M @ extra))"
    unfolding replace_bold_def
    by (simp add: Let_def dict_set_next[OF k] dict_set_next[OF k1] new_def extra_def g)
  have 5: "keys_ok (N + length extra) (M @ extra)"
    using keys_ok_snoc[OF k1] by (simp add: extra_def)
  have 6: "list_all (tok_below (N + length extra)) new"
    using tbd by (auto simp: new_def extra_def intro: tok_below_mono)
  have 7: "list_all lit_ok consumed \<longrightarrow> list_all lit_ok new"
    by (simp add: new_def consumed_def)
  have 8: "list_all vfree extra \<longrightarrow> expand (M @ extra) new = expand M consumed"
  proof
    have ed: "expand (M @ extra) ci = expand M ci"
      using tbd lenM by (intro expand_extend) simp
    show "expand (M @ extra) new = expand M consumed"
      using ed by (simp add: new_def extra_def consumed_def lenM nth_append)
  qed
  show ?thesis using 1 2 r 4 5 6 7 8 by blast
qed

lemma pass_bold_link:
  assumes "keys_ok N M" "list_all (tok_below N) xs" "list_all lit_ok xs"
    "re_sub match_bold_link replace_bold_link (N, M) (render xs) = (out, (N', M'))"
  shows "\<exists>xs' extra. out = render xs' \<and> M' = M @ extra \<and> N' = N + length extra \<and>
            keys_ok N' M' \<and> list_all (tok_below N') xs' \<and> list_all lit_ok xs' \<and>
            (list_all vfree extra \<longrightarrow> expand M' xs' = expand M xs)"
  using no_match_at_token(1) step_bold_link assms by (rule pass_generic)

lemma pass_link:
  assumes "keys_ok N M" "list_all (tok_below N) xs" "list_all lit_ok xs"
    "re_sub match_link replace_link (N, M) (render xs) = (out, (N', M'))"
  shows "\<exists>xs' extra. out = render xs' \<and> M' = M @ extra \<and> N' = N + length extra \<and>
            keys_ok N' M' \<and> list_all (tok_below N') xs' \<and> list_all lit_ok xs' \<and>
            (list_all vfree extra \<longrightarrow> expand M' xs' = expand M xs)"
  using no_match_at_token(2) step_link assms by (rule pass_generic)

lemma pass_inline_code:
  assumes "keys_ok N M" "list_all (tok_below N) xs" "list_all lit_ok xs"
    "re_sub match_inline_code replace_inline_code (N, M) (render xs) = (out, (N', M'))"
  shows "\<exists>xs' extra. out = render xs' \<and> M' = M @ extra \<and> N' = N + length extra \<and>
            keys_ok N' M' \<and> list_all (tok_below N') xs' \<and> list_all lit_ok xs' \<and>
            (list_all vfree extra \<longrightarrow> expand M' xs' = expand M xs)"
  using no_match_at_token(3) step_inline_code assms by (rule pass_generic)

lemma pass_bold:
  assumes "keys_ok N M" "list_all (tok_below N) xs" "list_all lit_ok xs"
    "re_sub match_bold replace_bold (N, M) (render xs) = (out, (N', M'))"
  shows "\<exists>xs' extra. out = render xs' \<and> M' = M @ extra \<and> N' = N + length extra \<and>
            keys_ok N' M' \<and> list_all (tok_below N') xs' \<and> list_all lit_ok xs' \<and>
            (list_all vfree extra \<longrightarrow> expand M' xs' = expand M xs)"
  using no_match_at_token(4) step_bold assms by (rule pass_generic)

lemma protect_invariant:
  assumes T: "10216 \<notin> set T" and p: "protect_inline_elements T = (P, M)"
  shows "\<exists>xs N. P = render xs \<and> keys_ok N M \<and> list_all (tok_below N) xs \<and> list_all lit_ok xs \<and>
           (list_all vfree M \<longrightarrow> expand M xs = T)"
proof -
  obtain p1 N1 M1 where r1: "re_sub match_bold_link replace_bold_link (0, []) T = (p1, (N1, M1))"
    by (metis prod.exhaust)
  obtain p2 N2 M2 where r2: "re_sub match_link replace_link (N1, M1) p1 = (p2, (N2, M2))"
    by (metis prod.exhaust)
  obtain p3 N3 M3 where r3: "re_sub match_inline_code replace_inline_code (N2, M2) p2 = (p3, (N3, M3))"
    by (metis prod.exhaust)
  obtain p4 N4 M4 where r4: "re_sub match_bold replace_bold (N3, M3) p3 = (p4, (N4, M4))"
    by (metis prod.exhaust)
  have PM: "P = p4" "M = M4" using p by (simp_all add: protect_inline_elements_def r1 r2 r3 r4)
  define x0 where "x0 = map Lit T"
  have x0: "T = render x0" "list_all (tok_below 0) x0" "list_all lit_ok x0" "expand [] x0 = T"
    using T by (auto simp: x0_def render_lits expand_lits list_all_iff)
  have k0: "keys_ok 0 []" by (simp add: keys_ok_def)
  from pass_bold_link[OF k0 x0(2) x0(3) r1[unfolded x0(1)]] obtain x1 e1 where
    a1: "p1 = render x1" "M1 = [] @ e1" "keys_ok N1 M1" "list_all (tok_below N1) x1"
        "list_all lit_ok x1" "list_all vfree e1 \<longrightarrow> expand M1 x1 = expand [] x0"
    by blast
  from pass_link[OF a1(3) a1(4) a1(5) r2[unfolded a1(1)]] obtain x2 e2 where
    a2: "p2 = render x2" "M2 = M1 @ e2" "keys_ok N2 M2" "list_all (tok_below N2) x2"
        "list_all lit_ok x2" "list_all vfree e2 \<longrightarrow> expand M2 x2 = expand M1 x1"
    by blast
  from pass_inline_code[OF a2(3) a2(4) a2(5) r3[unfolded a2(1)]] obtain x3 e3 where
    a3: "p3 = render x3" "M3 = M2 @ e3" "keys_ok N3 M3" "list_all (tok_below N3) x3"
        "list_all lit_ok x3" "list_all vfree e3 \<longrightarrow> expand M3 x3 = expand M2 x2"
    by blast
  from pass_bold[OF a3(3) a3(4) a3(5) r4[unfolded a3(1)]] obtain x4 e4 where
    a4: "p4 = render x4" "M4 = M3 @ e4" "keys_ok N4 M4" "list_all (tok_below N4) x4"
        "list_all lit_ok x4" "list_all vfree e4 \<longrightarrow> expand M4 x4 = expand M3 x3"
    by blast
  have "list_all vfree M \<longrightarrow> expand M x4 = T"
  proof
    assume "list_all vfree M"
    then have "list_all vfree e1" "list_all vfree e2" "list_all vfree e3" "list_all vfree e4"
      using PM(2) a1(2) a2(2) a3(2) a4(2) by simp_all
    then show "expand M x4 = T"
      using a1(6) a2(6) a3(6) a4(6) x0(4) PM(2) by simp
  qed
  then show ?thesis using PM a4 by blast
qed

subsection \<open>Restoration\<close>

lemma partial_Nil [simp]: "partial S M [] = []"
  by (simp add: partial_def)

lemma partial_Cons [simp]: "partial S M (i # is) = partial_item S M i @ partial S M is"
  by (simp add: partial_def)

lemma partial_item_empty: "partial_item {} M x = render_item x"
  by (cases x) auto

lemma partial_empty: "partial {} M xs = render xs"
  by (induction xs) (auto simp: partial_item_empty)

lemma partial_full:
  "list_all (tok_below N) xs \<Longrightarrow> partial {n. n < N} M xs = expand M xs"
proof (induction xs)
  case (Cons x xs)
  then show ?case by (cases x) auto
qed simp

lemma py_replace_skip:
  assumes "10216 \<notin> set u"
  shows "py_replace (10216 # k) new (u @ w) = u @ py_replace (10216 # k) new w"
  using assms
proof (induction u)
  case Nil
  then show ?case by simp
next
  case (Cons a u)
  then have "a \<noteq> 10216" by simp
  then have "py_replace (10216 # k) new (a # (u @ w)) = a # py_replace (10216 # k) new (u @ w)"
    by (subst py_replace.simps) (simp add: startswith_def)
  then show ?case using Cons by simp
qed

lemma py_replace_token:
  "py_replace (make_placeholder k) new (make_placeholder j @ w) =
     (if j = k then new else make_placeholder j) @ py_replace (make_placeholder k) new w"
proof (cases "j = k")
  case True
  have "startswith (make_placeholder k @ w) (make_placeholder k)"
    by (simp add: startswith_placeholder)
  then have "py_replace (make_placeholder k) new (make_placeholder k @ w) =
             new @ py_replace (make_placeholder k) new w"
    by (subst py_replace.simps) simp
  then show ?thesis using True by simp
next
  case False
  have ns: "\<not> startswith (make_placeholder j @ w) (make_placeholder k)"
    using False by (simp add: startswith_placeholder)
  have "py_replace (make_placeholder k) new (make_placeholder j @ w) =
        10216 # py_replace (make_placeholder k) new ((py_str j @ [10217]) @ w)"
    using ns by (subst py_replace.simps) (simp add: make_placeholder_def)
  also have "py_replace (make_placeholder k) new ((py_str j @ [10217]) @ w) =
             (py_str j @ [10217]) @ py_replace (make_placeholder k) new w"
    unfolding make_placeholder_Cons[of k]
    by (rule py_replace_skip) (simp add: py_str_no_delims)
  finally show ?thesis using False by (simp add: make_placeholder_def)
qed

lemma vfree_nth: "list_all vfree M \<Longrightarrow> n < length M \<Longrightarrow> 10216 \<notin> set (snd (M ! n))"
  by (simp add: list_all_length vfree_def)

lemma py_replace_partial:
  assumes v: "list_all vfree M" and lo: "list_all lit_ok xs"
    and tb: "list_all (tok_below (length M)) xs"
  shows "py_replace (make_placeholder k) (snd (M ! k)) (partial S M xs) = partial (insert k S) M xs"
  using lo tb
proof (induction xs)
  case Nil
  show ?case by (simp add: make_placeholder_Cons py_replace.simps)
next
  case (Cons x xs)
  then have IH: "py_replace (make_placeholder k) (snd (M ! k)) (partial S M xs) = partial (insert k S) M xs"
    by simp
  show ?case
  proof (cases x)
    case (Lit c)
    then have "c \<noteq> 10216" using Cons.prems by simp
    then have "py_replace (make_placeholder k) (snd (M ! k)) ([c] @ partial S M xs) =
               [c] @ py_replace (make_placeholder k) (snd (M ! k)) (partial S M xs)"
      unfolding make_placeholder_Cons[of k] by (intro py_replace_skip) simp
    then show ?thesis using IH Lit by simp
  next
    case (Tok n)
    then have n: "n < length M" using Cons.prems by simp
    show ?thesis
    proof (cases "n \<in> S")
      case True
      have "py_replace (make_placeholder k) (snd (M ! k)) (snd (M ! n) @ partial S M xs) =
            snd (M ! n) @ py_replace (make_placeholder k) (snd (M ! k)) (partial S M xs)"
        unfolding make_placeholder_Cons[of k]
        by (intro py_replace_skip vfree_nth[OF v n])
      then show ?thesis using IH Tok True by simp
    next
      case False
      then show ?thesis using IH Tok by (simp add: py_replace_token)
    qed
  qed
qed

lemma fold_replace_partial:
  assumes v: "list_all vfree M" and lo: "list_all lit_ok xs"
    and tb: "list_all (tok_below (length M)) xs"
  shows "(\<And>e. e \<in> set L \<Longrightarrow> \<exists>n. n < length M \<and> e = (make_placeholder n, snd (M ! n))) \<Longrightarrow>
         fold (\<lambda>(ph, original) result. py_replace ph original result) L (partial S M xs) =
         partial (S \<union> {n. n < length M \<and> (make_placeholder n, snd (M ! n)) \<in> set L}) M xs"
proof (induction L arbitrary: S)
  case Nil
  then show ?case by simp
next
  case (Cons e L)
  from Cons.prems[of e] obtain n where n: "n < length M" and e: "e = (make_placeholder n, snd (M ! n))"
    by auto
  have step: "py_replace (make_placeholder n) (snd (M ! n)) (partial S M xs) = partial (insert n S) M xs"
    using v lo tb by (rule py_replace_partial)
  have "fold (\<lambda>(ph, original) result. py_replace ph original result) L (partial (insert n S) M xs) =
        partial (insert n S \<union> {n. n < length M \<and> (make_placeholder n, snd (M ! n)) \<in> set L}) M xs"
    using Cons.prems by (intro Cons.IH) simp
  moreover have "insert n S \<union> {n. n < length M \<and> (make_placeholder n, snd (M ! n)) \<in> set L} =
                 S \<union> {m. m < length M \<and> (make_placeholder m, snd (M ! m)) \<in> set (e # L)}"
    using n e by (auto dest: make_placeholder_inj)
  ultimately show ?case using step by (simp add: e)
qed

lemma keys_ok_nth: "keys_ok N M \<Longrightarrow> n < N \<Longrightarrow> M ! n = (make_placeholder n, snd (M ! n))"
proof -
  assume k: "keys_ok N M" and n: "n < N"
  have len: "length M = N" using k by (rule keys_ok_length)
  have "fst (M ! n) = map fst M ! n" using n len by simp
  also have "\<dots> = make_placeholder n" using k n unfolding keys_ok_def by simp
  finally show ?thesis by (simp add: prod_eq_iff)
qed

lemma substitute_expand:
  assumes k: "keys_ok N M" and v: "list_all vfree M" and lo: "list_all lit_ok xs"
    and tb: "list_all (tok_below N) xs"
  shows "substitute (render xs) M = expand M xs"
proof -
  have len: "length M = N" using k by (rule keys_ok_length)
  define L where "L = sorted_items M"
  have setL: "set L = set M" by (simp add: L_def sorted_items_def)
  have mem: "\<exists>n. n < length M \<and> e = (make_placeholder n, snd (M ! n))" if "e \<in> set L" for e
  proof -
    from that setL obtain n where n: "n < length M" and e: "e = M ! n"
      by (auto simp: in_set_conv_nth)
    then show ?thesis using keys_ok_nth[OF k, of n] len by auto
  qed
  have all: "{n. n < length M \<and> (make_placeholder n, snd (M ! n)) \<in> set L} = {n. n < N}"
    using setL len keys_ok_nth[OF k] by (auto simp: in_set_conv_nth)
  have "fold (\<lambda>(ph, original) result. py_replace ph original result) L (partial {} M xs) =
        partial ({} \<union> {n. n < length M \<and> (make_placeholder n, snd (M ! n)) \<in> set L}) M xs"
    using v lo tb mem unfolding len[symmetric] by (intro fold_replace_partial) auto
  then have "fold (\<lambda>(ph, original) result. py_replace ph original result) L (render xs) =
        partial {n. n < N} M xs"
    unfolding all by (simp add: partial_empty)
  also have "\<dots> = expand M xs" using tb by (rule partial_full)
  finally show ?thesis by (simp add: substitute_def L_def)
qed

lemma clean_no_prefix: "10216 \<notin> set s \<Longrightarrow> re_sub_pure match_token f s = s"
proof (induction s)
  case Nil
  then show ?case by simp
next
  case (Cons a s)
  then have "match_token (a # s) = None" by (simp add: match_token_def)
  then show ?case using Cons by (simp add: re_sub_pure_None)
qed

text \<open>
  C1, as amended. Protection followed by restoration gives the text back for every
  text that holds no opening placeholder delimiter, that the punctuation clean-up
  leaves unchanged (no comma followed by optional whitespace and a comma or a
  closing parenthesis), and whose protection stored no original that itself holds
  a placeholder, that is, no protected span lies inside another protected span.
\<close>

theorem protect_restore_round_trip:
  assumes "PH_PREFIX \<notin> set T"
    and "protect_inline_elements T = (P, M)"
    and "list_all (\<lambda>(ph, original). PH_PREFIX \<notin> set original) M"
    and "comma_stable T"
  shows "restore_placeholders P M = T"
proof -
  have v: "list_all vfree M"
    using assms(3) by (auto simp: list_all_iff vfree_def)
  from protect_invariant[OF assms(1,2)] v obtain xs N where
    P: "P = render xs" and k: "keys_ok N M" and tb: "list_all (tok_below N) xs"
    and lo: "list_all lit_ok xs" and e: "expand M xs = T"
    by blast
  have "substitute P M = T"
    unfolding P using substitute_expand[OF k v lo tb] e by simp
  moreover have "re_sub_pure match_token (clean_spurious (map fst M)) T = T"
    using assms(1) by (rule clean_no_prefix)
  ultimately show ?thesis
    using assms(4) by (simp add: restore_placeholders_def Let_def comma_stable_def)
qed

theorem protect_restore_round_trip_witness:
  "PH_PREFIX \<notin> set (ustr ''x **[a](b)** and [c](d) `e` **f g**'') \<and>
   protect_inline_elements (ustr ''x **[a](b)** and [c](d) `e` **f g**'') =
     (ustr ''x '' @ make_placeholder 0 @ ustr '' and '' @ make_placeholder 1 @ ustr ''c'' @
      make_placeholder 2 @ ustr '' '' @ make_placeholder 3 @ ustr '' '' @ make_placeholder 4 @
      ustr ''f g'' @ make_placeholder 5,
      [(make_placeholder 0, ustr ''**[a](b)**''), (make_placeholder 1, ustr ''[''),
       (make_placeholder 2, ustr ''](d)''), (make_placeholder 3, ustr ''`e`''),
       (make_placeholder 4, ustr ''**''), (make_placeholder 5, ustr ''**'')]) \<and>
   comma_stable (ustr ''x **[a](b)** and [c](d) `e` **f g**'') \<and>
   restore_placeholders
     (ustr ''x '' @ make_placeholder 0 @ ustr '' and '' @ make_placeholder 1 @ ustr ''c'' @
      make_placeholder 2 @ ustr '' '' @ make_placeholder 3 @ ustr '' '' @ make_placeholder 4 @
      ustr ''f g'' @ make_placeholder 5)
     [(make_placeholder 0, ustr ''**[a](b)**''), (make_placeholder 1, ustr ''[''),
      (make_placeholder 2, ustr ''](d)''), (make_placeholder 3, ustr ''`e`''),
      (make_placeholder 4, ustr ''**''), (make_placeholder 5, ustr ''**'')]
     = ustr ''x **[a](b)** and [c](d) `e` **f g**''"
proof -
  have h1: "PH_PREFIX \<notin> set (ustr ''x **[a](b)** and [c](d) `e` **f g**'')"
    by (simp add: ustr_def)
  have h2: "protect_inline_elements (ustr ''x **[a](b)** and [c](d) `e` **f g**'') =
     (ustr ''x '' @ make_placeholder 0 @ ustr '' and '' @ make_placeholder 1 @ ustr ''c'' @
      make_placeholder 2 @ ustr '' '' @ make_placeholder 3 @ ustr '' '' @ make_placeholder 4 @
      ustr ''f g'' @ make_placeholder 5,
      [(make_placeholder 0, ustr ''**[a](b)**''), (make_placeholder 1, ustr ''[''),
       (make_placeholder 2, ustr ''](d)''), (make_placeholder 3, ustr ''`e`''),
       (make_placeholder 4, ustr ''**''), (make_placeholder 5, ustr ''**'')])"
    by (simp add: str_eval re_eval protect_eval)
  have h3: "list_all (\<lambda>(ph, original). PH_PREFIX \<notin> set original)
      [(make_placeholder 0, ustr ''**[a](b)**''), (make_placeholder 1, ustr ''[''),
       (make_placeholder 2, ustr ''](d)''), (make_placeholder 3, ustr ''`e`''),
       (make_placeholder 4, ustr ''**''), (make_placeholder 5, ustr ''**'')]"
    by (simp add: ustr_def)
  have h4: "comma_stable (ustr ''x **[a](b)** and [c](d) `e` **f g**'')"
    by (simp add: comma_stable_def str_eval re_eval)
  from protect_restore_round_trip[OF h1 h2 h3 h4] h1 h2 h4 show ?thesis by blast
qed

text \<open>
  C1, as stated: the round trip holds for every text, texts with literal comma
  sequences included. The text \<open>a, ,b\<close> has nothing to protect, and restoration
  with its empty map returns \<open>a,b\<close>.
\<close>

theorem round_trip_fails_on_comma_sequence:
  "protect_inline_elements (ustr ''a, ,b'') = (ustr ''a, ,b'', []) \<and>
   restore_placeholders (ustr ''a, ,b'') [] = ustr ''a,b''"
  by (simp add: str_eval re_eval protect_eval)

section \<open>Segments and the original line\<close>

lemma restore_protect_id:
  assumes "round_trip_ok t"
  shows "restore_placeholders (fst (protect_inline_elements t)) (snd (protect_inline_elements t)) = t"
proof -
  define P where "P = fst (protect_inline_elements t)"
  define M where "M = snd (protect_inline_elements t)"
  have pm: "protect_inline_elements t = (P, M)" by (simp add: P_def M_def)
  have np: "10216 \<notin> set t" and cs: "comma_stable t" using assms by (simp_all add: round_trip_ok_def)
  have v: "list_all vfree M"
    using assms by (auto simp: round_trip_ok_def M_def list_all_iff vfree_def)
  from protect_invariant[OF np pm] v obtain xs N where
    P: "P = render xs" and k: "keys_ok N M" and tb: "list_all (tok_below N) xs"
    and lo: "list_all lit_ok xs" and e: "expand M xs = t"
    by blast
  have "substitute P M = t"
    unfolding P using substitute_expand[OF k v lo tb] e by simp
  moreover have "re_sub_pure match_token (clean_spurious (map fst M)) t = t"
    using np by (rule clean_no_prefix)
  ultimately have "restore_placeholders P M = t"
    using cs by (simp add: restore_placeholders_def Let_def comma_stable_def)
  then show ?thesis by (simp add: P_def M_def)
qed

lemma unprotect_make_cell:
  "round_trip_ok (strip r) \<Longrightarrow> unprotect_cell (make_cell r) = strip r"
  by (simp add: unprotect_cell_def make_cell_eq restore_protect_id)

lemma split_on_pieces: "list_all (\<lambda>r. d \<notin> set r) (split_on d s)"
  by (auto simp: list_all_iff dest: split_on_no_sep)

text \<open>
  C4, as amended. The three prefix steps cut the line in two: the stored prefix
  followed by the remaining text is the original line. When the remaining text is
  not a table row, the segment is a text segment whose body and map are the
  protection of the remaining text; un-protecting the body with the segment's own
  map gives the remaining text back, and so the prefix and the un-protected body
  give the line, whenever the text meets the conditions of the round trip. When
  the remaining text is a table row, the segment holds one cell for every piece of
  the text between two pipes: the pieces hold no pipe and, joined with pipes, are
  the remaining text; each cell is the protection of the trimmed piece (an empty
  cell for a blank piece). The whitespace around a piece is not stored: when every
  trimmed piece meets the conditions of the round trip, the prefix and the
  un-protected cells joined with pipes are the prefix and the trimmed pieces
  joined with pipes.
\<close>

theorem segment_reconstructs_line:
  assumes "extract_segment i line = Some seg"
  shows "\<exists>pre text.
     strip_prefixes line = (pre, text) \<and> pre @ text = line \<and>
     (if is_table_row text
      then seg = TableRow i pre
                   (map (\<lambda>r. \<lparr>cell_text = fst (protect_inline_elements (strip r)),
                               cell_placeholders = snd (protect_inline_elements (strip r)),
                               cell_translated = None\<rparr>) (split_on PIPE text)) \<and>
           join [PIPE] (split_on PIPE text) = text \<and>
           list_all (\<lambda>r. PIPE \<notin> set r) (split_on PIPE text) \<and>
           (list_all (\<lambda>r. round_trip_ok (strip r)) (split_on PIPE text) \<longrightarrow>
              spec_rejoin seg = pre @ join [PIPE] (map strip (split_on PIPE text)))
      else seg = TextSeg i pre (fst (protect_inline_elements text))
                   (snd (protect_inline_elements text)) None \<and>
           strip text \<noteq> [] \<and>
           (round_trip_ok text \<longrightarrow> spec_rejoin seg = line))"
proof -
  obtain pre t where sp: "strip_prefixes line = (pre, t)" by (cases "strip_prefixes line")
  then have l: "pre @ t = line" by (rule strip_prefixes_split)
  have j: "join [PIPE] (split_on PIPE t) = t" by (rule join_split_on)
  have m: "map make_cell (split_on PIPE t) =
           map (\<lambda>r. \<lparr>cell_text = fst (protect_inline_elements (strip r)),
                      cell_placeholders = snd (protect_inline_elements (strip r)),
                      cell_translated = None\<rparr>) (split_on PIPE t)"
    by (simp add: make_cell_eq)
  have "if is_table_row t
      then seg = TableRow i pre
                   (map (\<lambda>r. \<lparr>cell_text = fst (protect_inline_elements (strip r)),
                               cell_placeholders = snd (protect_inline_elements (strip r)),
                               cell_translated = None\<rparr>) (split_on PIPE t)) \<and>
           join [PIPE] (split_on PIPE t) = t \<and>
           list_all (\<lambda>r. PIPE \<notin> set r) (split_on PIPE t) \<and>
           (list_all (\<lambda>r. round_trip_ok (strip r)) (split_on PIPE t) \<longrightarrow>
              spec_rejoin seg = pre @ join [PIPE] (map strip (split_on PIPE t)))
      else seg = TextSeg i pre (fst (protect_inline_elements t))
                   (snd (protect_inline_elements t)) None \<and>
           strip t \<noteq> [] \<and>
           (round_trip_ok t \<longrightarrow> spec_rejoin seg = line)"
  proof (cases "is_table_row t")
    case True
    then have sg: "seg = TableRow i pre (map make_cell (split_on PIPE t))"
      using assms unfolding extract_segment_def sp is_table_row_def by simp
    have u: "map unprotect_cell (map make_cell (split_on PIPE t)) = map strip (split_on PIPE t)"
      if "list_all (\<lambda>r. round_trip_ok (strip r)) (split_on PIPE t)"
      using that by (auto simp: list_all_iff unprotect_make_cell)
    have r: "spec_rejoin seg = pre @ join [PIPE] (map strip (split_on PIPE t))"
      if "list_all (\<lambda>r. round_trip_ok (strip r)) (split_on PIPE t)"
      unfolding sg spec_rejoin.simps u[OF that] ..
    show ?thesis
      using True sg m j r split_on_pieces[of PIPE t] by simp
  next
    case False
    then have ne: "strip t \<noteq> []"
      and sg: "seg = TextSeg i pre (fst (protect_inline_elements t)) (snd (protect_inline_elements t)) None"
      using assms unfolding extract_segment_def sp is_table_row_def
      by (auto split: if_splits prod.splits)
    have "spec_rejoin seg = line" if "round_trip_ok t"
      unfolding sg spec_rejoin.simps restore_protect_id[OF that] using l .
    then show ?thesis using False ne sg by simp
  qed
  then show ?thesis using sp l by blast
qed

theorem segment_reconstructs_line_witness:
  "extract_segment 0 (ustr ''- see `x`'') =
     Some (TextSeg 0 (ustr ''- '') (ustr ''see '' @ make_placeholder 0)
             [(make_placeholder 0, ustr ''`x`'')] None) \<and>
   strip_prefixes (ustr ''- see `x`'') = (ustr ''- '', ustr ''see `x`'') \<and>
   \<not> is_table_row (ustr ''see `x`'') \<and>
   round_trip_ok (ustr ''see `x`'') \<and>
   spec_rejoin (TextSeg 0 (ustr ''- '') (ustr ''see '' @ make_placeholder 0)
                  [(make_placeholder 0, ustr ''`x`'')] None) = ustr ''- see `x`'' \<and>
   extract_segment 1 (ustr ''> | a | `b` |'') =
     Some (TableRow 1 (ustr ''> '')
             [\<lparr>cell_text = [], cell_placeholders = [], cell_translated = None\<rparr>,
              \<lparr>cell_text = ustr ''a'', cell_placeholders = [], cell_translated = None\<rparr>,
              \<lparr>cell_text = make_placeholder 0,
               cell_placeholders = [(make_placeholder 0, ustr ''`b`'')], cell_translated = None\<rparr>,
              \<lparr>cell_text = [], cell_placeholders = [], cell_translated = None\<rparr>]) \<and>
   strip_prefixes (ustr ''> | a | `b` |'') = (ustr ''> '', ustr ''| a | `b` |'') \<and>
   is_table_row (ustr ''| a | `b` |'') \<and>
   split_on PIPE (ustr ''| a | `b` |'') = [[], ustr '' a '', ustr '' `b` '', []] \<and>
   list_all (\<lambda>r. round_trip_ok (strip r)) (split_on PIPE (ustr ''| a | `b` |'')) \<and>
   spec_rejoin (TableRow 1 (ustr ''> '')
             [\<lparr>cell_text = [], cell_placeholders = [], cell_translated = None\<rparr>,
              \<lparr>cell_text = ustr ''a'', cell_placeholders = [], cell_translated = None\<rparr>,
              \<lparr>cell_text = make_placeholder 0,
               cell_placeholders = [(make_placeholder 0, ustr ''`b`'')], cell_translated = None\<rparr>,
              \<lparr>cell_text = [], cell_placeholders = [], cell_translated = None\<rparr>]) =
     ustr ''> |a|`b`|''"
proof -
  define S1 where "S1 = TextSeg 0 (ustr ''- '') (ustr ''see '' @ make_placeholder 0)
             [(make_placeholder 0, ustr ''`x`'')] None"
  define S2 where "S2 = TableRow 1 (ustr ''> '')
             [\<lparr>cell_text = [], cell_placeholders = [], cell_translated = None\<rparr>,
              \<lparr>cell_text = ustr ''a'', cell_placeholders = [], cell_translated = None\<rparr>,
              \<lparr>cell_text = make_placeholder 0,
               cell_placeholders = [(make_placeholder 0, ustr ''`b`'')], cell_translated = None\<rparr>,
              \<lparr>cell_text = [], cell_placeholders = [], cell_translated = None\<rparr>]"
  have e1: "extract_segment 0 (ustr ''- see `x`'') = Some S1"
    unfolding S1_def by (simp add: str_eval re_eval protect_eval pipeline_eval)
  have p1: "strip_prefixes (ustr ''- see `x`'') = (ustr ''- '', ustr ''see `x`'')"
    by (simp add: str_eval re_eval pipeline_eval)
  have n1: "\<not> is_table_row (ustr ''see `x`'')"
    by (simp add: is_table_row_def str_eval)
  have r1: "round_trip_ok (ustr ''see `x`'')"
    by (simp add: round_trip_ok_def comma_stable_def str_eval re_eval protect_eval)
  have c1: "spec_rejoin S1 = ustr ''- see `x`''"
    using segment_reconstructs_line[OF e1] p1 n1 r1 by auto
  have e2: "extract_segment 1 (ustr ''> | a | `b` |'') = Some S2"
    unfolding S2_def by (simp add: str_eval re_eval protect_eval pipeline_eval)
  have p2: "strip_prefixes (ustr ''> | a | `b` |'') = (ustr ''> '', ustr ''| a | `b` |'')"
    by (simp add: str_eval re_eval pipeline_eval)
  have n2: "is_table_row (ustr ''| a | `b` |'')"
    by (simp add: is_table_row_def str_eval)
  have s2: "split_on PIPE (ustr ''| a | `b` |'') = [[], ustr '' a '', ustr '' `b` '', []]"
    by (simp add: ustr_def)
  have r2: "list_all (\<lambda>r. round_trip_ok (strip r)) (split_on PIPE (ustr ''| a | `b` |''))"
    unfolding s2 by (simp add: round_trip_ok_def comma_stable_def str_eval re_eval protect_eval)
  have "spec_rejoin S2 = ustr ''> '' @ join [PIPE] (map strip (split_on PIPE (ustr ''| a | `b` |'')))"
    using segment_reconstructs_line[OF e2] p2 n2 r2 by auto
  then have c2: "spec_rejoin S2 = ustr ''> |a|`b`|''"
    unfolding s2 by (simp add: str_eval)
  show ?thesis
    using e1 p1 n1 r1 c1 e2 p2 n2 s2 r2 c2 unfolding S1_def S2_def by blast
qed

text \<open>
  C4, as stated: the prefix and the un-protected body, or the un-protected cells
  joined with pipes, are the original line. The cells are trimmed before they are
  protected, so for the row \<open>| a |\<close> the rejoined cells are \<open>|a|\<close>; and
  un-protecting rewrites a comma sequence, so the text segment of \<open>a, ,b\<close> gives
  \<open>a,b\<close>.
\<close>

theorem table_row_cells_are_trimmed:
  "map_option spec_rejoin (extract_segment 0 (ustr ''| a |'')) = Some (ustr ''|a|'') \<and>
   map_option spec_rejoin (extract_segment 0 (ustr ''a, ,b'')) = Some (ustr ''a,b'')"
  by (simp add: str_eval re_eval protect_eval pipeline_eval unprotect_cell_def)

section \<open>Literal tokens and comma sequences in a document\<close>

subsection \<open>The characters of a reconstructed line\<close>

lemma re_sub_within:
  fixes f :: "'s \<Rightarrow> 'g \<Rightarrow> ustring \<times> 's"
  assumes step: "\<And>s g rest st. m s = Some (g, rest) \<Longrightarrow> set s \<subseteq> B \<Longrightarrow> I st \<Longrightarrow>
                   set rest \<subseteq> set s \<and> set (fst (f st g)) \<subseteq> B \<and> I (snd (f st g))"
  shows "set s \<subseteq> B \<Longrightarrow> I st \<Longrightarrow>
         set (fst (re_sub m f st s)) \<subseteq> B \<and> I (snd (re_sub m f st s))"
proof (induction s arbitrary: st rule: length_induct)
  case (1 s)
  show ?case
  proof (cases s)
    case Nil
    then show ?thesis using "1.prems" by simp
  next
    case (Cons c cs)
    have cB: "c \<in> B" and csB: "set cs \<subseteq> B" using "1.prems"(1) Cons by auto
    have skip: "set (fst (re_sub m f st cs)) \<subseteq> B \<and> I (snd (re_sub m f st cs))"
      using "1.IH" Cons csB "1.prems"(2) by simp
    show ?thesis
    proof (cases "m (c # cs)")
      case None
      then show ?thesis using skip cB unfolding Cons by (auto split: prod.splits)
    next
      case (Some a)
      obtain g rest where a: "a = (g, rest)" by (cases a)
      show ?thesis
      proof (cases "length rest \<le> length cs")
        case False
        then show ?thesis using Some a skip cB unfolding Cons by (auto split: prod.splits)
      next
        case True
        from step[OF Some[unfolded a]] "1.prems" Cons
        have r: "set rest \<subseteq> set s" and o: "set (fst (f st g)) \<subseteq> B" and i: "I (snd (f st g))"
          by auto
        have lr: "length rest < length s" using True Cons by simp
        have rB: "set rest \<subseteq> B" using r "1.prems"(1) by auto
        have "set (fst (re_sub m f (snd (f st g)) rest)) \<subseteq> B \<and> I (snd (re_sub m f (snd (f st g)) rest))"
          using "1.IH"[rule_format, OF lr rB i] .
        then show ?thesis using Some a True o unfolding Cons by (auto split: prod.splits)
      qed
    qed
  qed
qed

lemma re_sub_pure_within:
  assumes "\<And>s g rest. m s = Some (g, rest) \<Longrightarrow> set s \<subseteq> B \<Longrightarrow> set rest \<subseteq> set s \<and> set (f g) \<subseteq> B"
    and "set s \<subseteq> B"
  shows "set (re_sub_pure m f s) \<subseteq> B"
proof -
  have "set (fst (re_sub m (\<lambda>st g. (f g, st)) () s)) \<subseteq> B \<and> True"
    by (rule re_sub_within[where I = "\<lambda>_. True"]) (use assms in auto)
  then show ?thesis by (simp add: re_sub_pure_def)
qed

lemma match_inline_code_Some:
  "match_inline_code s = Some (body, rest) \<Longrightarrow> s = 96 # body @ 96 # rest"
proof -
  assume a: "match_inline_code s = Some (body, rest)"
  then obtain r where s: "s = 96 # r"
    by (auto simp: match_inline_code_def Let_def split: list.splits if_splits)
  from a obtain d where d: "dropWhile (\<lambda>x. x \<noteq> 96) r = d # rest"
    and b: "body = takeWhile (\<lambda>x. x \<noteq> 96) r"
    unfolding s by (auto simp: match_inline_code_def Let_def split: list.splits if_splits)
  have "d = 96" using hd_dropWhile[of "\<lambda>x. x \<noteq> 96" r] d by simp
  moreover have "r = takeWhile (\<lambda>x. x \<noteq> 96) r @ dropWhile (\<lambda>x. x \<noteq> 96) r" by simp
  ultimately show ?thesis unfolding s b using d by simp
qed

lemma match_link_Some:
  "match_link s = Some ((display, url), rest) \<Longrightarrow> s = 91 # display @ 93 # 40 # url @ 41 # rest"
proof -
  assume a: "match_link s = Some ((display, url), rest)"
  then obtain r where s: "s = 91 # r"
    by (auto simp: match_link_def Let_def split: list.splits if_splits)
  from a obtain d r' where d: "dropWhile (\<lambda>x. x \<noteq> 93) r = d # 40 # r'"
    and di: "display = takeWhile (\<lambda>x. x \<noteq> 93) r"
    unfolding s by (auto simp: match_link_def Let_def split: list.splits if_splits)
  from a d obtain p where p: "dropWhile (\<lambda>x. x \<noteq> 41) r' = p # rest"
    and u: "url = takeWhile (\<lambda>x. x \<noteq> 41) r'"
    unfolding s by (auto simp: match_link_def Let_def split: list.splits if_splits)
  have d93: "d = 93" using hd_dropWhile[of "\<lambda>x. x \<noteq> 93" r] d by simp
  have p41: "p = 41" using hd_dropWhile[of "\<lambda>x. x \<noteq> 41" r'] p by simp
  have "r = takeWhile (\<lambda>x. x \<noteq> 93) r @ dropWhile (\<lambda>x. x \<noteq> 93) r" by simp
  then have r: "r = display @ 93 # 40 # r'" unfolding di d d93 .
  have "r' = takeWhile (\<lambda>x. x \<noteq> 41) r' @ dropWhile (\<lambda>x. x \<noteq> 41) r'" by simp
  then have r': "r' = url @ 41 # rest" unfolding u p p41 .
  show ?thesis unfolding s using r r' by simp
qed

lemma match_bold_link_Some:
  "match_bold_link s = Some ((display, url), rest) \<Longrightarrow>
   s = 42 # 42 # 91 # display @ 93 # 40 # url @ 41 # 42 # 42 # rest"
proof -
  assume a: "match_bold_link s = Some ((display, url), rest)"
  then obtain r where s: "s = 42 # 42 # r"
    by (auto simp: match_bold_link_def split: list.splits if_splits)
  from a have "match_link r = Some ((display, url), 42 # 42 # rest)"
    unfolding s by (auto simp: match_bold_link_def split: list.splits if_splits option.splits)
  from match_link_Some[OF this] show ?thesis unfolding s by simp
qed

lemma dict_set_mem:
  "(k', v') \<in> set (dict_set d k v) \<Longrightarrow> (k', v') \<in> set d \<or> v' = v"
  by (induction d) (auto split: if_splits)

lemma protect_within:
  assumes T: "set t \<subseteq> B" and tk: "\<And>c. tokch c \<Longrightarrow> c \<in> B"
  shows "set (fst (protect_inline_elements t)) \<subseteq> B \<and>
         (\<forall>e \<in> set (snd (protect_inline_elements t)). set (snd e) \<subseteq> B)"
proof -
  define I where "I = (\<lambda>st :: pstate. \<forall>e \<in> set (snd st). set (snd e) \<subseteq> B)"
  have ph: "set (make_placeholder n) \<subseteq> B" for n
    using make_placeholder_tokch tk by blast
  have ds: "I (n', dict_set d k v)" if "I (n, d)" "set v \<subseteq> B" for n n' d k v
    using that unfolding I_def by (auto dest!: dict_set_mem)
  have s1: "set rest \<subseteq> set s \<and> set (fst (replace_bold_link st g)) \<subseteq> B \<and> I (snd (replace_bold_link st g))"
    if "match_bold_link s = Some (g, rest)" "set s \<subseteq> B" "I st" for s g rest st
  proof -
    obtain display url where g: "g = (display, url)" by (cases g)
    obtain n d where st: "st = (n, d)" by (cases st)
    have s: "s = 42 # 42 # 91 # display @ 93 # 40 # url @ 41 # 42 # 42 # rest"
      using that(1) unfolding g by (rule match_bold_link_Some)
    have v: "set (ustr ''**['' @ display @ ustr ''](''  @ url @ ustr '')**'') \<subseteq> B"
      using that(2) unfolding s by (auto simp: ustr_def)
    have "I (Suc n, dict_set d (make_placeholder n) (ustr ''**['' @ display @ ustr ''](''  @ url @ ustr '')**''))"
      using that(3) v unfolding st by (rule ds)
    then show ?thesis
      using ph unfolding g st by (auto simp: replace_bold_link_def Let_def s)
  qed
  have s2: "set rest \<subseteq> set s \<and> set (fst (replace_link st g)) \<subseteq> B \<and> I (snd (replace_link st g))"
    if "match_link s = Some (g, rest)" "set s \<subseteq> B" "I st" for s g rest st
  proof -
    obtain display url where g: "g = (display, url)" by (cases g)
    obtain n d where st: "st = (n, d)" by (cases st)
    have s: "s = 91 # display @ 93 # 40 # url @ 41 # rest"
      using that(1) unfolding g by (rule match_link_Some)
    have v1: "set [91::nat] \<subseteq> B" and v2: "set (ustr ''](''  @ url @ [41]) \<subseteq> B"
      and di: "set display \<subseteq> B"
      using that(2) unfolding s by (auto simp: ustr_def)
    have "I (n, dict_set d (make_placeholder n) [91])"
      using that(3) v1 unfolding st by (rule ds)
    then have "I (Suc (Suc n), dict_set (dict_set d (make_placeholder n) [91]) (make_placeholder (Suc n))
                 (ustr ''](''  @ url @ [41]))"
      using v2 by (rule ds)
    then show ?thesis
      using ph di unfolding g st by (auto simp: replace_link_def Let_def s)
  qed
  have s3: "set rest \<subseteq> set s \<and> set (fst (replace_inline_code st g)) \<subseteq> B \<and> I (snd (replace_inline_code st g))"
    if "match_inline_code s = Some (g, rest)" "set s \<subseteq> B" "I st" for s g rest st
  proof -
    obtain n d where st: "st = (n, d)" by (cases st)
    have s: "s = 96 # g @ 96 # rest"
      using that(1) by (rule match_inline_code_Some)
    have v: "set (96 # g @ [96]) \<subseteq> B"
      using that(2) unfolding s by auto
    have "I (Suc n, dict_set d (make_placeholder n) (96 # g @ [96]))"
      using that(3) v unfolding st by (rule ds)
    then show ?thesis
      using ph unfolding st by (auto simp: replace_inline_code_def Let_def s)
  qed
  have s4: "set rest \<subseteq> set s \<and> set (fst (replace_bold st g)) \<subseteq> B \<and> I (snd (replace_bold st g))"
    if "match_bold s = Some (g, rest)" "set s \<subseteq> B" "I st" for s g rest st
  proof -
    obtain n d where st: "st = (n, d)" by (cases st)
    have s: "s = [42, 42] @ g @ [42, 42] @ rest"
      using match_bold_Some[OF that(1)] by simp
    have v: "set [42, 42::nat] \<subseteq> B" and gi: "set g \<subseteq> B"
      using that(2) unfolding s by auto
    have "I (n, dict_set d (make_placeholder n) [42, 42])"
      using that(3) v unfolding st by (rule ds)
    then have "I (Suc (Suc n), dict_set (dict_set d (make_placeholder n) [42, 42]) (make_placeholder (Suc n)) [42, 42])"
      using v by (rule ds)
    then show ?thesis
      using ph gi unfolding st by (auto simp: replace_bold_def Let_def s)
  qed
  obtain p1 st1 where r1: "re_sub match_bold_link replace_bold_link (0, []) t = (p1, st1)"
    by (cases "re_sub match_bold_link replace_bold_link (0, []) t")
  obtain p2 st2 where r2: "re_sub match_link replace_link st1 p1 = (p2, st2)"
    by (cases "re_sub match_link replace_link st1 p1")
  obtain p3 st3 where r3: "re_sub match_inline_code replace_inline_code st2 p2 = (p3, st3)"
    by (cases "re_sub match_inline_code replace_inline_code st2 p2")
  obtain p4 st4 where r4: "re_sub match_bold replace_bold st3 p3 = (p4, st4)"
    by (cases "re_sub match_bold replace_bold st3 p3")
  have i0: "I (0, [])" by (simp add: I_def)
  have a1: "set p1 \<subseteq> B \<and> I st1"
    using re_sub_within[where m = match_bold_link and f = replace_bold_link and B = B and I = I
        and s = t and st = "(0, [])", OF s1 T i0] r1 by simp
  have a2: "set p2 \<subseteq> B \<and> I st2"
    using re_sub_within[where m = match_link and f = replace_link and B = B and I = I
        and s = p1 and st = st1, OF s2] a1 r2 by simp
  have a3: "set p3 \<subseteq> B \<and> I st3"
    using re_sub_within[where m = match_inline_code and f = replace_inline_code and B = B and I = I
        and s = p2 and st = st2, OF s3] a2 r3 by simp
  have a4: "set p4 \<subseteq> B \<and> I st4"
    using re_sub_within[where m = match_bold and f = replace_bold and B = B and I = I
        and s = p3 and st = st3, OF s4] a3 r4 by simp
  show ?thesis
    using a4 unfolding I_def by (simp add: protect_inline_elements_def r1 r2 r3 r4)
qed

lemma py_replace_within:
  "set s \<subseteq> B \<Longrightarrow> set new \<subseteq> B \<Longrightarrow> set (py_replace old new s) \<subseteq> B"
proof (induction old new s rule: py_replace.induct)
  case (1 old new s)
  show ?case
  proof (cases "old = []")
    case True
    then show ?thesis using "1.prems" by (subst py_replace.simps) auto
  next
    case False
    show ?thesis
    proof (cases "s = []")
      case True
      then show ?thesis using False by (subst py_replace.simps) simp
    next
      case ne: False
      show ?thesis
      proof (cases "startswith s old")
        case True
        have "set (drop (length old) s) \<subseteq> B" using "1.prems"(1) by (auto dest: in_set_dropD)
        then have "set (py_replace old new (drop (length old) s)) \<subseteq> B"
          using "1.IH"(1)[OF False ne True] "1.prems"(2) by simp
        then show ?thesis using False ne True "1.prems"(2) by (subst py_replace.simps) simp
      next
        case nsw: False
        have "set (tl s) \<subseteq> B" using "1.prems"(1) ne by (cases s) auto
        then have "set (py_replace old new (tl s)) \<subseteq> B"
          using "1.IH"(2)[OF False ne nsw] "1.prems"(2) by simp
        moreover have "hd s \<in> B" using "1.prems"(1) ne by (cases s) auto
        ultimately show ?thesis using False ne nsw by (subst py_replace.simps) simp
      qed
    qed
  qed
qed

lemma fold_replace_within:
  "set s \<subseteq> B \<Longrightarrow> (\<forall>e \<in> set L. set (snd e) \<subseteq> B) \<Longrightarrow>
   set (fold (\<lambda>(ph, original) result. py_replace ph original result) L s) \<subseteq> B"
proof (induction L arbitrary: s)
  case Nil
  then show ?case by simp
next
  case (Cons e L)
  obtain k v where e: "e = (k, v)" by (cases e)
  have "set (py_replace k v s) \<subseteq> B" using Cons.prems e by (intro py_replace_within) auto
  then show ?case using Cons.IH[of "py_replace k v s"] Cons.prems(2) e by simp
qed

lemma match_comma_then_Some:
  "match_comma_then c s = Some (g, rest) \<Longrightarrow>
   \<exists>ws. s = 44 # ws @ c # rest \<and> list_all is_space ws"
proof -
  assume a: "match_comma_then c s = Some (g, rest)"
  then obtain r where s: "s = 44 # r"
    by (auto simp: match_comma_then_def split: list.splits if_splits)
  from a have d: "dropWhile is_space r = c # rest"
    unfolding s by (auto simp: match_comma_then_def split: list.splits if_splits)
  have "r = takeWhile is_space r @ dropWhile is_space r" by simp
  then have "r = takeWhile is_space r @ c # rest" unfolding d .
  moreover have "list_all is_space (takeWhile is_space r)"
    by (auto simp: list_all_iff dest: set_takeWhileD)
  ultimately show ?thesis unfolding s by blast
qed

lemma restore_within:
  assumes "set t \<subseteq> B" and "\<forall>e \<in> set d. set (snd e) \<subseteq> B"
  shows "set (restore_placeholders t d) \<subseteq> B"
proof -
  have 1: "set (substitute t d) \<subseteq> B"
    unfolding substitute_def sorted_items_def
    using assms by (intro fold_replace_within) simp_all
  have 2: "set (re_sub_pure match_token (clean_spurious (map fst d)) (substitute t d)) \<subseteq> B"
  proof (rule re_sub_pure_within[OF _ 1])
    fix s g rest assume m: "match_token s = Some (g, rest)" and sB: "set s \<subseteq> B"
    from match_token_Some[OF m] have "s = g @ rest" by simp
    then show "set rest \<subseteq> set s \<and> set (clean_spurious (map fst d) g) \<subseteq> B"
      using sB by (auto simp: clean_spurious_def)
  qed
  have 3: "set (re_sub_pure (match_comma_then c) (\<lambda>_. [c]) s) \<subseteq> B" if "set s \<subseteq> B" for s c
  proof (rule re_sub_pure_within[OF _ that])
    fix s' g rest assume m: "match_comma_then c s' = Some (g, rest)" and sB: "set s' \<subseteq> B"
    from match_comma_then_Some[OF m] obtain ws where "s' = 44 # ws @ c # rest" by blast
    then show "set rest \<subseteq> set s' \<and> set [c] \<subseteq> B" using sB by auto
  qed
  show ?thesis
    unfolding restore_placeholders_def Let_def by (intro 3 2)
qed

lemma strip_subset: "set (strip r) \<subseteq> set r"
  unfolding strip_def rstrip_def lstrip_def
  by (auto dest!: set_dropWhileD)

lemma split_on_subset: "r \<in> set (split_on d s) \<Longrightarrow> set r \<subseteq> set s"
proof (induction s arbitrary: r)
  case Nil
  then show ?case by simp
next
  case (Cons c cs)
  obtain p ps where sp: "split_on d cs = p # ps" by (cases "split_on d cs") auto
  have ih: "set x \<subseteq> set cs" if "x = p \<or> x \<in> set ps" for x
    using Cons.IH[of x] that sp by auto
  show ?case
  proof (cases "c = d")
    case True
    then have "r = [] \<or> r = p \<or> r \<in> set ps" using Cons.prems sp by auto
    then show ?thesis using ih by auto
  next
    case False
    then have "r = c # p \<or> r \<in> set ps" using Cons.prems sp by auto
    then show ?thesis using ih[of p] ih[of r] by auto
  qed
qed

lemma join_within:
  "(\<And>x. x \<in> set xs \<Longrightarrow> set x \<subseteq> B) \<Longrightarrow> set sep \<subseteq> B \<Longrightarrow> set (join sep xs) \<subseteq> B"
  by (induction sep xs rule: join.induct) auto

lemma rebuild_cell_within:
  assumes "set r \<subseteq> B" and tk: "\<And>c. tokch c \<Longrightarrow> c \<in> B" and "32 \<in> B"
  shows "set (rebuild_cell (make_cell r)) \<subseteq> B"
proof -
  have s: "set (strip r) \<subseteq> B" using strip_subset[of r] assms(1) by auto
  from protect_within[OF s tk]
  have "set (restore_placeholders (fst (protect_inline_elements (strip r)))
                (snd (protect_inline_elements (strip r)))) \<subseteq> B"
    by (intro restore_within) auto
  then show ?thesis using assms(3) by (auto simp: rebuild_cell_def make_cell_eq)
qed

lemma reconstruct_within:
  assumes e: "extract_segment i line = Some seg" and l: "set line \<subseteq> B"
    and tk: "\<And>c. tokch c \<Longrightarrow> c \<in> B" and sp: "32 \<in> B" and pi: "124 \<in> B"
  shows "set (reconstruct seg) \<subseteq> B"
proof -
  obtain pre t where spx: "strip_prefixes line = (pre, t)" by (cases "strip_prefixes line")
  then have lt: "pre @ t = line" by (rule strip_prefixes_split)
  have pB: "set pre \<subseteq> B" and tB: "set t \<subseteq> B" using l lt by auto
  show ?thesis
  proof (cases "startswith (strip t) [PIPE] \<and> endswith (strip t) [PIPE]")
    case True
    then have sg: "seg = TableRow i pre (map make_cell (split_on PIPE t))"
      using e unfolding extract_segment_def spx by simp
    have c: "set x \<subseteq> B" if "x \<in> set (map rebuild_cell (map make_cell (split_on PIPE t)))" for x
    proof -
      from that obtain r where r: "r \<in> set (split_on PIPE t)" and x: "x = rebuild_cell (make_cell r)"
        by auto
      have "set r \<subseteq> B" using split_on_subset[OF r] tB by auto
      then show ?thesis unfolding x using tk sp by (rule rebuild_cell_within)
    qed
    have j: "set (join [PIPE] (map rebuild_cell (map make_cell (split_on PIPE t)))) \<subseteq> B"
      using c pi by (intro join_within) auto
    obtain p s where "rebuild_row (map make_cell (split_on PIPE t)) =
                       p @ join [PIPE] (map rebuild_cell (map make_cell (split_on PIPE t))) @ s"
      and "p = [] \<or> p = [PIPE]" and "s = [] \<or> s = [PIPE]"
      using rebuild_row_join by blast
    then show ?thesis using j pi unfolding sg by auto
  next
    case False
    then have sg: "seg = TextSeg i pre (fst (protect_inline_elements t)) (snd (protect_inline_elements t)) None"
      using e unfolding extract_segment_def spx by (auto split: if_splits prod.splits)
    from protect_within[OF tB tk]
    have "set (restore_placeholders (fst (protect_inline_elements t)) (snd (protect_inline_elements t))) \<subseteq> B"
      by (intro restore_within) auto
    then show ?thesis using pB unfolding sg by simp
  qed
qed

subsection \<open>The output for a backend that returns its input\<close>

lemma translate_identity:
  "translate_markdown_file content identity_backend =
     Inr (post_process (join [NL] (reconstruct_lines (split_on NL content) (segments_of content))))"
proof -
  define segs where "segs = segments_of content"
  define texts where "texts = map fst (collect_texts 0 segs)"
  define lines where "lines = split_on NL content"
  have fr: "list_all fresh segs" unfolding segs_def by (rule segments_of_fresh)
  have "finish lines segs [] = finish lines segs (aligned texts [])"
    unfolding texts_def using fr by (rule finish_aligned)
  then have f: "finish lines segs texts = finish lines segs []" by (simp add: aligned_Cons_Nil)
  have "translate_markdown_file content identity_backend = Inr (finish lines segs texts)"
    unfolding translate_markdown_file_def identity_backend_def
    by (simp add: Let_def segs_def texts_def lines_def)
  also have "finish lines segs texts =
             post_process (join [NL] (reconstruct_lines lines segs))"
    unfolding f by (simp add: finish_def Let_def)
  finally show ?thesis by (simp add: segs_def lines_def)
qed

lemma extract_segment_line_idx: "extract_segment i line = Some seg \<Longrightarrow> line_idx seg = i"
  by (auto simp: extract_segment_def split: prod.splits if_splits)

lemma fold_update_segments:
  "length P = n \<Longrightarrow>
   fold (\<lambda>seg out. out[line_idx seg := reconstruct seg]) (extract_segments n lt) (P @ map fst lt) =
   P @ map (\<lambda>(k, line, ty).
              if ty = Translatable
              then (case extract_segment k line of None \<Rightarrow> line | Some seg \<Rightarrow> reconstruct seg)
              else line) (zip [n..<n + length lt] lt)"
proof (induction lt arbitrary: n P)
  case Nil
  then show ?case by simp
next
  case (Cons e lt)
  obtain line ty where e: "e = (line, ty)" by (cases e)
  define new where "new = (if ty = Translatable
              then (case extract_segment n line of None \<Rightarrow> line | Some seg \<Rightarrow> reconstruct seg)
              else line)"
  have up: "[n..<n + length (e # lt)] = n # [Suc n..<Suc n + length lt]"
    by (subst upt_rec) simp
  have ih: "fold (\<lambda>seg out. out[line_idx seg := reconstruct seg]) (extract_segments (Suc n) lt)
              ((P @ [new]) @ map fst lt) =
            (P @ [new]) @ map (\<lambda>(k, line, ty).
              if ty = Translatable
              then (case extract_segment k line of None \<Rightarrow> line | Some seg \<Rightarrow> reconstruct seg)
              else line) (zip [Suc n..<Suc n + length lt] lt)"
    using Cons.prems by (intro Cons.IH) simp
  have "fold (\<lambda>seg out. out[line_idx seg := reconstruct seg]) (extract_segments n (e # lt))
          (P @ map fst (e # lt)) =
        fold (\<lambda>seg out. out[line_idx seg := reconstruct seg]) (extract_segments (Suc n) lt)
          ((P @ [new]) @ map fst lt)"
  proof (cases "ty = Translatable")
    case False
    then show ?thesis by (simp add: e new_def)
  next
    case True
    show ?thesis
    proof (cases "extract_segment n line")
      case None
      then show ?thesis using True by (simp add: e new_def)
    next
      case (Some seg)
      have li: "line_idx seg = n" using Some by (rule extract_segment_line_idx)
      have "(P @ line # map fst lt)[n := reconstruct seg] = P @ reconstruct seg # map fst lt"
        using Cons.prems by (simp add: list_update_append)
      then show ?thesis using True Some li by (simp add: e new_def)
    qed
  qed
  then show ?case unfolding ih up by (simp add: e new_def)
qed

lemma length_classify_lines: "length (classify_lines b lines) = length lines"
  by (simp add: classify_lines_general)

lemma reconstruct_lines_identity:
  "reconstruct_lines (split_on NL content) (segments_of content) =
     map (\<lambda>(k, line, ty).
            if ty = Translatable
            then (case extract_segment k line of None \<Rightarrow> line | Some seg \<Rightarrow> reconstruct seg)
            else line)
         (zip [0..<length (split_on NL content)]
              (zip (split_on NL content) (classify_lines False (split_on NL content))))"
proof -
  define lines where "lines = split_on NL content"
  define lt where "lt = zip lines (classify_lines False lines)"
  have m: "map fst lt = lines" and l: "length lt = length lines"
    unfolding lt_def by (simp_all add: length_classify_lines)
  have "fold (\<lambda>seg out. out[line_idx seg := reconstruct seg]) (extract_segments 0 lt) ([] @ map fst lt) =
        [] @ map (\<lambda>(k, line, ty).
              if ty = Translatable
              then (case extract_segment k line of None \<Rightarrow> line | Some seg \<Rightarrow> reconstruct seg)
              else line) (zip [0..<0 + length lt] lt)"
    by (rule fold_update_segments) simp
  then show ?thesis
    by (simp add: reconstruct_lines_def segments_of_def Let_def m l lt_def[symmetric] lines_def[symmetric])
qed

lemma reconstruct_lines_length:
  "length (reconstruct_lines (split_on NL content) (segments_of content)) = length (split_on NL content)"
  by (simp add: reconstruct_lines_identity length_classify_lines)

lemma reconstruct_lines_nth:
  assumes "i < length (split_on NL content)"
  shows "reconstruct_lines (split_on NL content) (segments_of content) ! i =
           (if classify_lines False (split_on NL content) ! i = Translatable
            then (case extract_segment i (split_on NL content ! i) of
                    None \<Rightarrow> split_on NL content ! i | Some seg \<Rightarrow> reconstruct seg)
            else split_on NL content ! i)"
  using assms by (simp add: reconstruct_lines_identity length_classify_lines)

lemma reconstruct_lines_within:
  assumes st: "42 \<notin> set content" and x: "x \<in> set (reconstruct_lines (split_on NL content) (segments_of content))"
  shows "10 \<notin> set x \<and> 42 \<notin> set x"
proof -
  define B :: "nat set" where "B = {c. c \<noteq> 10 \<and> c \<noteq> 42}"
  define lines where "lines = split_on NL content"
  from x obtain i where i: "i < length lines"
    and xi: "x = reconstruct_lines lines (segments_of content) ! i"
    unfolding lines_def by (auto simp: in_set_conv_nth reconstruct_lines_length)
  have mem: "lines ! i \<in> set lines" using i by simp
  have lB: "set (lines ! i) \<subseteq> B"
    using split_on_no_sep[OF mem[unfolded lines_def]] split_on_subset[OF mem[unfolded lines_def]] st
    unfolding B_def lines_def by auto
  have tk: "\<And>c. tokch c \<Longrightarrow> c \<in> B" by (auto simp: B_def tokch_def)
  have "set x \<subseteq> B"
  proof (cases "classify_lines False lines ! i = Translatable")
    case False
    then show ?thesis using lB i unfolding xi lines_def by (simp add: reconstruct_lines_nth)
  next
    case True
    show ?thesis
    proof (cases "extract_segment i (lines ! i)")
      case None
      then show ?thesis using True lB i unfolding xi lines_def by (simp add: reconstruct_lines_nth)
    next
      case (Some seg)
      have "set (reconstruct seg) \<subseteq> B"
        using Some lB tk by (rule reconstruct_within) (simp_all add: B_def)
      then show ?thesis using True Some i unfolding xi lines_def by (simp add: reconstruct_lines_nth)
    qed
  qed
  then show ?thesis by (auto simp: B_def)
qed

subsection \<open>The post-pass on text without an asterisk\<close>

lemma match_bullet_bold_no_star: "42 \<notin> set s \<Longrightarrow> match_bullet_bold s = None"
proof -
  assume a: "42 \<notin> set s"
  have "42 \<notin> set (dropWhile is_space s)" using a by (auto dest: set_dropWhileD)
  then show ?thesis by (auto simp: match_bullet_bold_def split: list.splits)
qed

lemma match_ordinal_bold_no_star: "42 \<notin> set s \<Longrightarrow> match_ordinal_bold s = None"
proof -
  assume a: "42 \<notin> set s"
  have "42 \<notin> set (dropWhile is_digit (dropWhile is_space s))"
    using a by (auto dest!: set_dropWhileD)
  then show ?thesis by (auto simp: match_ordinal_bold_def Let_def split: list.splits)
qed

lemma re_sub_ml_no_match:
  "(\<And>r. set r \<subseteq> set s \<Longrightarrow> m r = None) \<Longrightarrow> re_sub_ml m f b s = s"
proof (induction s arbitrary: b)
  case Nil
  then show ?case by simp
next
  case (Cons c cs)
  have "m (c # cs) = None" using Cons.prems by simp
  moreover have "re_sub_ml m f (c = NL) cs = cs"
    using Cons.prems by (intro Cons.IH) auto
  ultimately show ?case by simp
qed

lemma post_process_no_star:
  assumes "42 \<notin> set s"
  shows "post_process s = s"
proof -
  have "map fix_bold_line (split_on NL s) = split_on NL s"
  proof (rule map_idI)
    fix l assume "l \<in> set (split_on NL s)"
    then have "42 \<notin> set l" using split_on_subset assms by blast
    then show "fix_bold_line l = l" using fix_bold_line_skip[of l "[]"] by (simp add: fix_bold_line_Nil)
  qed
  then have 1: "join [NL] (map fix_bold_line (split_on NL s)) = s" by (simp add: join_split_on)
  have 2: "re_sub_ml match_bullet_bold f True s = s" for f
    using assms by (intro re_sub_ml_no_match match_bullet_bold_no_star) auto
  have 3: "re_sub_ml match_ordinal_bold f True s = s" for f
    using assms by (intro re_sub_ml_no_match match_ordinal_bold_no_star) auto
  show ?thesis by (simp add: post_process_def Let_def 1 2 3)
qed

lemma translate_identity_no_star:
  assumes "42 \<notin> set content"
  shows "translate_markdown_file content identity_backend =
           Inr (join [NL] (reconstruct_lines (split_on NL content) (segments_of content))) \<and>
         split_on NL (join [NL] (reconstruct_lines (split_on NL content) (segments_of content))) =
           reconstruct_lines (split_on NL content) (segments_of content)"
proof -
  define outs where "outs = reconstruct_lines (split_on NL content) (segments_of content)"
  have w: "10 \<notin> set x \<and> 42 \<notin> set x" if "x \<in> set outs" for x
    using assms that unfolding outs_def by (rule reconstruct_lines_within)
  have "set (join [NL] outs) \<subseteq> {c. c \<noteq> 42}"
    using w by (intro join_within) auto
  then have "post_process (join [NL] outs) = join [NL] outs"
    by (intro post_process_no_star) auto
  moreover have "length outs = length (split_on NL content)"
    unfolding outs_def by (rule reconstruct_lines_length)
  then have "length outs \<noteq> 0" using split_on_not_Nil[of NL content] by (simp del: split_on_not_Nil)
  then have "outs \<noteq> []" by auto
  then have "split_on NL (join [NL] outs) = outs"
    using w by (intro split_on_join) auto
  ultimately show ?thesis by (simp add: translate_identity outs_def)
qed

subsection \<open>A text without inline markup\<close>

lemma re_sub_no_match:
  "(\<And>c r. c \<in> set s \<Longrightarrow> m (c # r) = None) \<Longrightarrow> re_sub m f st s = (s, st)"
proof (induction s)
  case Nil
  then show ?case by simp
next
  case (Cons c cs)
  have "m (c # cs) = None" using Cons.prems by simp
  moreover have "re_sub m f st cs = (cs, st)" using Cons.prems by (intro Cons.IH) simp
  ultimately show ?case by simp
qed

lemma protect_plain:
  assumes "42 \<notin> set t" "96 \<notin> set t" "91 \<notin> set t"
  shows "protect_inline_elements t = (t, [])"
proof -
  have 1: "re_sub match_bold_link replace_bold_link st t = (t, st)" for st
    using assms(1) by (intro re_sub_no_match) (auto simp: match_bold_link_def split: list.splits)
  have 2: "re_sub match_link replace_link st t = (t, st)" for st
    using assms(3) by (intro re_sub_no_match) (auto simp: match_link_def)
  have 3: "re_sub match_inline_code replace_inline_code st t = (t, st)" for st
    using assms(2) by (intro re_sub_no_match) (auto simp: match_inline_code_def)
  have 4: "re_sub match_bold replace_bold st t = (t, st)" for st
    using assms(1) by (intro re_sub_no_match) (auto simp: match_bold_def split: list.splits)
  show ?thesis by (simp add: protect_inline_elements_def 1 2 3 4)
qed

lemma identity_line:
  assumes st: "42 \<notin> set content" and i: "i < length (split_on NL content)"
    and ty: "classify_lines False (split_on NL content) ! i = Translatable"
    and sp: "strip_prefixes (split_on NL content ! i) = (pre, t)"
    and nt: "\<not> is_table_row t" and ne: "strip t \<noteq> []"
    and bt: "96 \<notin> set t" and lb: "91 \<notin> set t"
  shows "\<exists>out. translate_markdown_file content identity_backend = Inr out \<and>
               length (split_on NL out) = length (split_on NL content) \<and>
               split_on NL out ! i = pre @ restore_placeholders t []"
proof -
  define outs where "outs = reconstruct_lines (split_on NL content) (segments_of content)"
  have l: "pre @ t = split_on NL content ! i" using sp by (rule strip_prefixes_split)
  have "split_on NL content ! i \<in> set (split_on NL content)" using i by simp
  then have "42 \<notin> set (split_on NL content ! i)" using split_on_subset st by blast
  then have "42 \<notin> set t" using l by (metis Un_iff set_append)
  then have p: "protect_inline_elements t = (t, [])" using bt lb by (rule protect_plain)
  have e: "extract_segment i (split_on NL content ! i) = Some (TextSeg i pre t [] None)"
    using nt ne p unfolding extract_segment_def sp is_table_row_def by simp
  have n: "outs ! i = pre @ restore_placeholders t []"
    unfolding outs_def using i ty e by (simp add: reconstruct_lines_nth)
  from translate_identity_no_star[OF st]
  have "translate_markdown_file content identity_backend = Inr (join [NL] outs)"
    and "split_on NL (join [NL] outs) = outs"
    unfolding outs_def by simp_all
  moreover have "length outs = length (split_on NL content)"
    unfolding outs_def by (rule reconstruct_lines_length)
  ultimately show ?thesis using n by auto
qed

subsection \<open>Text that the clean-up shortens\<close>

lemma re_sub_pure_guard:
  "m (c # cs) = Some (g, rest) \<Longrightarrow> \<not> length rest \<le> length cs \<Longrightarrow>
   re_sub_pure m f (c # cs) = c # re_sub_pure m f cs"
  by (simp add: re_sub_pure_def split: prod.splits)

lemma re_sub_pure_length:
  assumes step: "\<And>s g rest. m s = Some (g, rest) \<Longrightarrow> length (f g) + length rest \<le> length s"
  shows "length (re_sub_pure m f s) \<le> length s"
proof (induction s rule: length_induct)
  case (1 s)
  show ?case
  proof (cases s)
    case Nil
    then show ?thesis by simp
  next
    case (Cons c cs)
    have ih: "length (re_sub_pure m f cs) \<le> length cs" using 1 Cons by simp
    show ?thesis
    proof (cases "m (c # cs)")
      case None
      then show ?thesis using ih unfolding Cons by (simp add: re_sub_pure_None)
    next
      case (Some a)
      obtain g rest where a: "a = (g, rest)" by (cases a)
      show ?thesis
      proof (cases "length rest \<le> length cs")
        case False
        then show ?thesis using Some a ih unfolding Cons by (simp add: re_sub_pure_guard)
      next
        case True
        have "length (re_sub_pure m f rest) \<le> length rest" using 1 Cons True by simp
        moreover have "length (f g) + length rest \<le> length s"
          using step[OF Some[unfolded a]] Cons by simp
        moreover have "re_sub_pure m f (c # cs) = f g @ re_sub_pure m f rest"
          using Some[unfolded a] True by (rule re_sub_pure_Some)
        ultimately show ?thesis unfolding Cons by simp
      qed
    qed
  qed
qed

lemma re_sub_pure_shrinks:
  assumes step: "\<And>s g rest. m s = Some (g, rest) \<Longrightarrow> length (f g) + length rest < length s"
  shows "re_search m s \<Longrightarrow> length (re_sub_pure m f s) < length s"
proof (induction s)
  case Nil
  then show ?case by simp
next
  case (Cons c cs)
  have le: "length (re_sub_pure m f x) \<le> length x" for x
    by (rule re_sub_pure_length) (use step in fastforce)
  show ?case
  proof (cases "m (c # cs)")
    case None
    then have "re_search m cs" using Cons.prems by simp
    then have "length (re_sub_pure m f cs) < length cs" by (rule Cons.IH)
    then show ?thesis using None by (simp add: re_sub_pure_None)
  next
    case (Some a)
    obtain g rest where a: "a = (g, rest)" by (cases a)
    have st: "length (f g) + length rest < length (c # cs)" using step[OF Some[unfolded a]] .
    then have g: "length rest \<le> length cs" by simp
    have "re_sub_pure m f (c # cs) = f g @ re_sub_pure m f rest"
      using Some[unfolded a] g by (rule re_sub_pure_Some)
    then show ?thesis using st le[of rest] by simp
  qed
qed

lemma re_sub_pure_no_search: "\<not> re_search m s \<Longrightarrow> re_sub_pure m f s = s"
proof (induction s)
  case Nil
  then show ?case by simp
next
  case (Cons c cs)
  have n: "m (c # cs) = None" using Cons.prems by (cases "m (c # cs)") auto
  have "\<not> re_search m cs" using Cons.prems by simp
  then have "re_sub_pure m f cs = cs" by (rule Cons.IH)
  then show ?case using n by (simp add: re_sub_pure_None)
qed

lemma re_search_append: "re_search m b \<Longrightarrow> re_search m (a @ b)"
  by (induction a) simp_all

lemma re_search_token:
  "ds \<noteq> [] \<Longrightarrow> list_all is_digit ds \<Longrightarrow> re_search match_token (a @ 10216 # ds @ [10217] @ b)"
proof -
  assume "ds \<noteq> []" "list_all is_digit ds"
  then have "match_token (10216 # ds @ 10217 # b) = Some (10216 # ds @ [10217], b)"
    by (rule match_token_token)
  then have "re_search match_token (10216 # ds @ 10217 # b)" by simp
  then have "re_search match_token (a @ 10216 # ds @ 10217 # b)" by (rule re_search_append)
  then show ?thesis by simp
qed

lemma re_search_comma:
  "list_all is_space ws \<Longrightarrow> \<not> is_space c \<Longrightarrow> re_search (match_comma_then c) (a @ 44 # ws @ c # b)"
proof -
  assume "list_all is_space ws" "\<not> is_space c"
  then have "match_comma_then c (44 # (ws @ c # b)) = Some ((), b)"
    by (simp add: match_comma_then_def dropWhile_all)
  then have "re_search (match_comma_then c) (44 # ws @ c # b)" by simp
  then show ?thesis by (rule re_search_append)
qed

lemma restore_plain:
  "(re_search match_token t \<or> re_search (match_comma_then 44) t \<or> re_search (match_comma_then 41) t
      \<longrightarrow> length (restore_placeholders t []) < length t) \<and>
   (\<not> re_search match_token t \<and> \<not> re_search (match_comma_then 44) t \<and>
    \<not> re_search (match_comma_then 41) t \<longrightarrow> restore_placeholders t [] = t)"
proof -
  define R1 where "R1 = re_sub_pure match_token (clean_spurious [])"
  define R2 where "R2 = re_sub_pure (match_comma_then 44) (\<lambda>_. [44])"
  define R3 where "R3 = re_sub_pure (match_comma_then 41) (\<lambda>_. [41])"
  have r: "restore_placeholders t [] = R3 (R2 (R1 t))"
    by (simp add: restore_placeholders_def Let_def substitute_empty R1_def R2_def R3_def)
  have s1: "length (clean_spurious [] g) + length rest < length s"
    if "match_token s = Some (g, rest)" for s g rest
    using match_token_Some[OF that] by (auto simp: clean_spurious_def)
  have s2: "length [c] + length rest < length s"
    if "match_comma_then c s = Some (g, rest)" for s g rest c
    using match_comma_then_Some[OF that] by auto
  have lt1: "re_search match_token x \<Longrightarrow> length (R1 x) < length x" for x
    unfolding R1_def using s1 by (rule re_sub_pure_shrinks)
  have lt2: "re_search (match_comma_then 44) x \<Longrightarrow> length (R2 x) < length x" for x
    unfolding R2_def using s2 by (rule re_sub_pure_shrinks)
  have lt3: "re_search (match_comma_then 41) x \<Longrightarrow> length (R3 x) < length x" for x
    unfolding R3_def using s2 by (rule re_sub_pure_shrinks)
  have id1: "\<not> re_search match_token x \<Longrightarrow> R1 x = x" for x
    unfolding R1_def by (rule re_sub_pure_no_search)
  have id2: "\<not> re_search (match_comma_then 44) x \<Longrightarrow> R2 x = x" for x
    unfolding R2_def by (rule re_sub_pure_no_search)
  have id3: "\<not> re_search (match_comma_then 41) x \<Longrightarrow> R3 x = x" for x
    unfolding R3_def by (rule re_sub_pure_no_search)
  have le1: "length (R1 x) \<le> length x" for x
    using lt1[of x] id1[of x] by (cases "re_search match_token x") auto
  have le2: "length (R2 x) \<le> length x" for x
    using lt2[of x] id2[of x] by (cases "re_search (match_comma_then 44) x") auto
  have le3: "length (R3 x) \<le> length x" for x
    using lt3[of x] id3[of x] by (cases "re_search (match_comma_then 41) x") auto
  have a: "length (R3 (R2 (R1 t))) < length t" if "re_search match_token t"
    using lt1[OF that] le2[of "R1 t"] le3[of "R2 (R1 t)"] by linarith
  have b: "length (R3 (R2 (R1 t))) < length t" if "re_search (match_comma_then 44) t"
  proof (cases "re_search match_token t")
    case True
    then show ?thesis by (rule a)
  next
    case False
    then have "R1 t = t" by (rule id1)
    then show ?thesis using lt2[OF that] le3[of "R2 t"] by simp
  qed
  have c: "length (R3 (R2 (R1 t))) < length t" if "re_search (match_comma_then 41) t"
  proof (cases "re_search match_token t \<or> re_search (match_comma_then 44) t")
    case True
    then show ?thesis using a b by blast
  next
    case False
    then have "R1 t = t" "R2 t = t" using id1 id2 by auto
    then show ?thesis using lt3[OF that] by simp
  qed
  show ?thesis unfolding r using a b c id1 id2 id3 by auto
qed




end
